theory Spec2Isabelle
  imports Main "HOL-Library.List_Lexorder" "HOL-Library.Multiset"
begin

section \<open>Strings and the patterns of \<open>gender_identification\<close>\<close>

text \<open>
  A Python \<open>str\<close> is a sequence of Unicode code points, so it is modelled as a list of
  natural numbers (an Isabelle \<open>char\<close> is a byte and cannot hold a Cyrillic letter).
  Literals of the source are written out by code point.
\<close>

type_synonym ustr = "nat list"

text \<open>
  A character class of a pattern is a list of inclusive code point ranges; a single
  character \<open>c\<close> is the range \<open>(c, c)\<close>.
\<close>

type_synonym cls = "(nat \<times> nat) list"

definition in_cls :: "cls \<Rightarrow> nat \<Rightarrow> bool" where
  "in_cls rs c = list_ex (\<lambda>r. fst r \<le> c \<and> c \<le> snd r) rs"

text \<open>
  The fragment of the pattern language of \<open>re\<close> that the source uses: a pattern is a
  sequence of items, each \<open>^\<close>, \<open>\b\<close>, \<open>[...]*\<close>, \<open>[...]+\<close> or a group of literal
  alternatives \<open>(w1|w2|...)\<close>.
\<close>

datatype rx = Bol | WordB | Star cls | Plus cls | Alt "ustr list"

text \<open>
  A position in the subject string is the code point before it (\<open>None\<close> at the start
  of the string) together with the rest of the string from there on.
\<close>

type_synonym pos = "nat option \<times> ustr"

text \<open>
  \<open>\b\<close> holds where exactly one of the two neighbouring characters is a word
  character; outside the string there is no word character. Which code points are
  word characters (\<open>\w\<close>: alphanumeric in the Unicode database, or the underscore) is
  decided by the table \<open>W\<close>, which the matcher takes as an argument.
\<close>

definition at_boundary :: "(nat \<Rightarrow> bool) \<Rightarrow> nat option \<Rightarrow> ustr \<Rightarrow> bool" where
  "at_boundary W p rest =
     ((case p of None \<Rightarrow> False | Some c \<Rightarrow> W c) \<noteq>
      (case rest of [] \<Rightarrow> False | c # _ \<Rightarrow> W c))"

text \<open>
  The positions a greedy \<open>[...]*\<close> can stop at, in the order in which backtracking
  tries them: the longest repetition first.
\<close>

fun star_states :: "cls \<Rightarrow> nat option \<Rightarrow> ustr \<Rightarrow> pos list" where
  "star_states cs p [] = [(p, [])]"
| "star_states cs p (c # r) =
     (if in_cls cs c then star_states cs (Some c) r @ [(p, c # r)] else [(p, c # r)])"

definition plus_states :: "cls \<Rightarrow> nat option \<Rightarrow> ustr \<Rightarrow> pos list" where
  "plus_states cs p rest =
     (case rest of [] \<Rightarrow> [] | c # r \<Rightarrow> if in_cls cs c then star_states cs (Some c) r else [])"

definition prev_after :: "nat option \<Rightarrow> ustr \<Rightarrow> nat option" where
  "prev_after p w = (if w = [] then p else Some (last w))"

definition lit_states :: "ustr \<Rightarrow> nat option \<Rightarrow> ustr \<Rightarrow> pos list" where
  "lit_states w p rest =
     (if take (length w) rest = w then [(prev_after p w, drop (length w) rest)] else [])"

fun match_item :: "(nat \<Rightarrow> bool) \<Rightarrow> rx \<Rightarrow> pos \<Rightarrow> pos list" where
  "match_item W Bol (p, rest) = (if p = None then [(p, rest)] else [])"
| "match_item W WordB (p, rest) = (if at_boundary W p rest then [(p, rest)] else [])"
| "match_item W (Star cs) (p, rest) = star_states cs p rest"
| "match_item W (Plus cs) (p, rest) = plus_states cs p rest"
| "match_item W (Alt ws) (p, rest) = concat (map (\<lambda>w. lit_states w p rest) ws)"

fun match_seq :: "(nat \<Rightarrow> bool) \<Rightarrow> rx list \<Rightarrow> pos \<Rightarrow> pos list" where
  "match_seq W [] st = [st]"
| "match_seq W (it # its) st = concat (map (match_seq W its) (match_item W it st))"

text \<open>The start positions \<open>re.search\<close> tries, from left to right.\<close>

fun starts :: "nat option \<Rightarrow> ustr \<Rightarrow> pos list" where
  "starts p [] = [(p, [])]"
| "starts p (c # r) = (p, c # r) # starts (Some c) r"

text \<open>
  \<open>re.search(pattern, string)\<close>: the span of the first match, scanning the start
  positions from the left, or \<open>None\<close>.
\<close>

definition re_search :: "(nat \<Rightarrow> bool) \<Rightarrow> rx list \<Rightarrow> ustr \<Rightarrow> (nat \<times> nat) option" where
  "re_search W r s =
     (case concat (map (\<lambda>st. map (\<lambda>e. (st, e)) (take 1 (match_seq W r st))) (starts None s)) of
        [] \<Rightarrow> None
      | (st, e) # _ \<Rightarrow> Some (length s - length (snd st), length s - length (snd e)))"

subsection \<open>The two patterns\<close>

text \<open>The class \<open>[\<^verbatim>\<open>U+0410\<close>-\<^verbatim>\<open>U+042F\<close>\<^verbatim>\<open>U+0430\<close>-\<^verbatim>\<open>U+044F\<close>]\<close> of both patterns.\<close>

definition cyr :: cls where
  "cyr = [(0x410, 0x42F), (0x430, 0x44F)]"

text \<open>
  The class of the prefix of the male pattern: the same two ranges, then the
  hyphen-minus \<^verbatim>\<open>U+002D\<close> and the character \<^verbatim>\<open>U+2013\<close> (en dash), both literal: after
  a completed range a \<open>-\<close> that is not followed by \<open>-\<close> is a literal.
\<close>

definition cyr_dash :: cls where
  "cyr_dash = [(0x410, 0x42F), (0x430, 0x44F), (0x2D, 0x2D), (0x2013, 0x2013)]"

definition evna :: ustr where "evna = [0x435, 0x432, 0x43D, 0x430]"
definition ovna :: ustr where "ovna = [0x43E, 0x432, 0x43D, 0x430]"
definition ichna :: ustr where "ichna = [0x438, 0x447, 0x43D, 0x430]"
definition inichna :: ustr where "inichna = [0x438, 0x43D, 0x438, 0x447, 0x43D, 0x430]"
definition ovich :: ustr where "ovich = [0x43E, 0x432, 0x438, 0x447]"
definition evich :: ustr where "evich = [0x435, 0x432, 0x438, 0x447]"
definition ich :: ustr where "ich = [0x438, 0x447]"

definition female_patr :: "rx list" where
  "female_patr = [WordB, Plus cyr, Alt [evna, ovna, ichna, inichna], WordB]"

definition male_patr :: "rx list" where
  "male_patr = [Bol, WordB, Star cyr_dash, Plus cyr, Alt [ovich, evich, ich], WordB]"

definition gender_identification :: "(nat \<Rightarrow> bool) \<Rightarrow> ustr \<Rightarrow> string" where
  "gender_identification W patronym =
     (if re_search W female_patr patronym \<noteq> None then ''female''
      else if re_search W male_patr patronym \<noteq> None then ''male''
      else ''unknown'')"

text \<open>
  The rows of the word character table for the blocks the examples below use: Basic
  Latin, Latin-1 Supplement and Cyrillic (\<^verbatim>\<open>U+0400\<close> to \<^verbatim>\<open>U+052F\<close>). Code points of other
  blocks are not tabulated here and count as non-word characters in the examples; the
  general theorems hold for every table.
\<close>

definition uword :: "nat \<Rightarrow> bool" where
  "uword c = in_cls
     [(0x30, 0x39), (0x41, 0x5A), (0x5F, 0x5F), (0x61, 0x7A),
      (0xAA, 0xAA), (0xB2, 0xB3), (0xB5, 0xB5), (0xB9, 0xBA), (0xBC, 0xBE),
      (0xC0, 0xD6), (0xD8, 0xF6), (0xF8, 0xFF),
      (0x400, 0x481), (0x48A, 0x52F)] c"

text \<open>Code points of an ASCII literal.\<close>

definition ascii :: "string \<Rightarrow> ustr" where
  "ascii s = map of_char s"

subsection \<open>The classifier as the specification words it\<close>

text \<open>
  A Cyrillic letter, in the specification's words, is any letter of the Cyrillic script:
  the letters of the Unicode blocks Cyrillic and Cyrillic Supplement. They include the 64
  letters \<^verbatim>\<open>U+0410\<close> to \<^verbatim>\<open>U+044F\<close> of the class of the patterns and, among others, \<^verbatim>\<open>U+0401\<close>
  and \<^verbatim>\<open>U+0451\<close>, which the class does not hold.
\<close>

definition cyrillic_letter :: "nat \<Rightarrow> bool" where
  "cyrillic_letter c = in_cls [(0x400, 0x481), (0x48A, 0x52F)] c"

text \<open>
  The female rule in the specification's words: the string contains one or more
  Cyrillic letters followed by one of the four endings, as a whole word (a word boundary
  on both sides).
\<close>

definition female_word :: "(nat \<Rightarrow> bool) \<Rightarrow> ustr \<Rightarrow> bool" where
  "female_word W s \<longleftrightarrow>
     (\<exists>pre stem e suf. s = pre @ stem @ e @ suf
        \<and> stem \<noteq> [] \<and> (\<forall>c\<in>set stem. cyrillic_letter c)
        \<and> e \<in> {evna, ovna, ichna, inichna}
        \<and> at_boundary W (prev_after None pre) (stem @ e @ suf)
        \<and> at_boundary W (Some (last e)) suf)"

text \<open>
  The male rule in the specification's words: from the start of the string, an optional
  compound of Cyrillic letters and joining characters \<open>J\<close>, then one or more Cyrillic
  letters and one of the three endings, the whole from a word boundary at the start to
  a word boundary after the ending.
\<close>

definition male_word :: "nat set \<Rightarrow> (nat \<Rightarrow> bool) \<Rightarrow> ustr \<Rightarrow> bool" where
  "male_word J W s \<longleftrightarrow>
     (\<exists>pre stem e suf. s = pre @ stem @ e @ suf
        \<and> (\<forall>c\<in>set pre. cyrillic_letter c \<or> c \<in> J)
        \<and> stem \<noteq> [] \<and> (\<forall>c\<in>set stem. cyrillic_letter c)
        \<and> e \<in> {ovich, evich, ich}
        \<and> at_boundary W None s
        \<and> at_boundary W (Some (last e)) suf)"

section \<open>The roster\<close>

text \<open>
  One row of the table the queries read. The columns with Cyrillic names are
  transliterated: \<open>fio\<close>, \<open>fakultet\<close>, \<open>gruppa\<close>, \<open>kurs\<close>, \<open>isu\<close> (the student number) and
  \<open>sredniy_ball\<close>; \<open>surname\<close>, \<open>name\<close> and \<open>patronim\<close> are the columns split off the full
  name. The type \<open>'g\<close> of the grade stands for a 64-bit float, whose arithmetic the
  queries that use it take as arguments.
\<close>

record 'g student =
  fio :: ustr
  fakultet :: ustr
  gruppa :: ustr
  kurs :: ustr
  isu :: int
  sredniy_ball :: 'g
  surname :: ustr
  name :: ustr
  patronim :: ustr

text \<open>The exceptions a query can raise.\<close>

datatype error = ValueError | KeyError

subsection \<open>Column operations\<close>

text \<open>\<open>Series.unique()\<close>: the distinct values in order of first appearance.\<close>

definition unique :: "'a list \<Rightarrow> 'a list" where
  "unique xs = rev (remdups (rev xs))"

text \<open>
  \<open>Series.value_counts()\<close>: each distinct value with its number of occurrences, by
  descending count. The order among values of equal count is not fixed by the library;
  the model keeps them in order of first appearance.
\<close>

definition value_counts :: "'a list \<Rightarrow> ('a \<times> nat) list" where
  "value_counts xs =
     sort_key (\<lambda>p. - int (snd p)) (map (\<lambda>v. (v, count_list xs v)) (unique xs))"

text \<open>
  \<open>max(d, key=d.get)\<close> over the keys of a dictionary, given as its items in insertion
  order: the first key whose value no later value exceeds; \<open>ValueError\<close> on an empty
  dictionary. The comparison \<open>gt\<close> is that of the values.
\<close>

definition max_by :: "('v \<Rightarrow> 'v \<Rightarrow> bool) \<Rightarrow> ('k \<times> 'v) list \<Rightarrow> error + 'k" where
  "max_by gt items =
     (case items of
        [] \<Rightarrow> Inl ValueError
      | kv # rest \<Rightarrow> Inr (fst (foldl (\<lambda>best x. if gt (snd x) (snd best) then x else best) kv rest)))"

text \<open>\<open>df.at[label, ...]\<close> on a table with explicit row labels: \<open>KeyError\<close> when absent.\<close>

definition at_label :: "(nat \<times> 'a) list \<Rightarrow> nat \<Rightarrow> error + 'a" where
  "at_label tbl i = (case map_of tbl i of None \<Rightarrow> Inl KeyError | Some v \<Rightarrow> Inr v)"

text \<open>
  \<open>Series.diff()\<close> on the student numbers: no value (\<open>NaN\<close>) in the first row, then the
  difference to the row before. The numbers are 64-bit integers in the source and the
  differences floats; the model uses unbounded integers, which agree with them for
  numbers below \<open>2 ^ 53\<close>.
\<close>

definition diff_col :: "int list \<Rightarrow> int option list" where
  "diff_col xs = (case xs of [] \<Rightarrow> [] | x # r \<Rightarrow> None # map (\<lambda>(a, b). Some (b - a)) (zip xs r))"

text \<open>\<open>Series.cumsum()\<close> of a boolean column, from the running total \<open>acc\<close>.\<close>

fun cumsum :: "nat \<Rightarrow> bool list \<Rightarrow> nat list" where
  "cumsum acc [] = []"
| "cumsum acc (b # bs) = (acc + (if b then 1 else 0)) # cumsum (acc + (if b then 1 else 0)) bs"

text \<open>\<open>(isu["diff"] != 1).cumsum()\<close>: the label of the run each row belongs to.\<close>

definition area_col :: "int option list \<Rightarrow> nat list" where
  "area_col ds = cumsum 0 (map (\<lambda>d. d \<noteq> Some 1) ds)"

text \<open>\<open>groupby("area").size()\<close>: the labels in ascending order, each with its row count.\<close>

definition groupby_size :: "nat list \<Rightarrow> (nat \<times> nat) list" where
  "groupby_size ls = map (\<lambda>l. (l, count_list ls l)) (sort (remdups ls))"

text \<open>
  \<open>area_sizes[area_sizes >= 5].index\<close>. The source fixes the threshold to 5; the
  detector is stated for a threshold \<open>k\<close>, which \<open>find_consecutive_students\<close> sets to 5.
\<close>

definition valid_areas :: "nat \<Rightarrow> (nat \<times> nat) list \<Rightarrow> nat list" where
  "valid_areas k area_sizes = map fst (filter (\<lambda>p. k \<le> snd p) area_sizes)"

text \<open>Boolean indexing \<open>xs[mask]\<close> of a column or of the rows of a table.\<close>

definition select :: "bool list \<Rightarrow> 'a list \<Rightarrow> 'a list" where
  "select msk xs = map snd (filter fst (zip msk xs))"

text \<open>
  The run detector inside \<open>find_consecutive_students\<close>, on the sorted student numbers:
  the groups of \<open>groupby("area")\<close> whose label is in \<open>valid_areas\<close>, in ascending
  order of label. The rows of \<open>firsts\<close> are the rows of these groups.
\<close>

definition find_runs :: "nat \<Rightarrow> int list \<Rightarrow> int list list" where
  "find_runs k ids =
     (let area = area_col (diff_col ids);
          area_sizes = groupby_size area;
          valid = valid_areas k area_sizes
      in map (\<lambda>l. select (map (\<lambda>a. a = l) area) ids) valid)"

subsection \<open>Queries that only read the roster\<close>

definition fsuir :: ustr where
  "fsuir = [0x444, 0x430, 0x43A, 0x443, 0x43B, 0x44C, 0x442, 0x435, 0x442, 0x20,
     0x441, 0x438, 0x441, 0x442, 0x435, 0x43C, 0x20,
     0x443, 0x43F, 0x440, 0x430, 0x432, 0x43B, 0x435, 0x43D, 0x438, 0x44F, 0x20, 0x438, 0x20,
     0x440, 0x43E, 0x431, 0x43E, 0x442, 0x43E, 0x442, 0x435, 0x445, 0x43D, 0x438, 0x43A, 0x438]"

definition filter_fsuir_students ::
    "'g student list \<Rightarrow> nat \<times> nat \<times> 'g student list" where
  "filter_fsuir_students data =
     (let fsuirs = filter (\<lambda>r. fakultet r = fsuir) data;
          students_numb = length fsuirs;
          groups_numb = length (unique (map gruppa fsuirs))
      in (students_numb, groups_numb, fsuirs))"

text \<open>
  The number of students that share their surname with another one, in a table:
  \<open>sum(numb for numb in df.surname.value_counts() if numb > 1)\<close>.
\<close>

definition homonyms :: "'g student list \<Rightarrow> nat" where
  "homonyms df = sum_list (filter (\<lambda>numb. 1 < numb) (map snd (value_counts (map surname df))))"

definition find_homonymous_students ::
    "'g student list \<Rightarrow> error + (bool \<times> nat \<times> (ustr \<times> nat) list \<times> ustr)" where
  "find_homonymous_students df =
     (let surnames = map snd (value_counts (map surname df));
          exist = list_ex (\<lambda>numb. 1 < numb) surnames;
          homonyms_numb = sum_list (filter (\<lambda>numb. 1 < numb) surnames);
          df1 = sort_key kurs df;
          courses = sort (unique (map kurs df1));
          hom_on_course = map (\<lambda>c. (c, homonyms (filter (\<lambda>r. kurs r = c) df1))) courses;
          df2 = sort_key gruppa df1;
          groups = unique (map gruppa df2);
          groups_with_homs = map (\<lambda>g. (g, homonyms (filter (\<lambda>r. gruppa r = g) df2))) groups
      in case max_by (\<lambda>a b. b < a) groups_with_homs of
           Inl e \<Rightarrow> Inl e
         | Inr max_hom_group \<Rightarrow> Inr (exist, homonyms_numb, hom_on_course, max_hom_group))"

definition analyze_patronyms ::
    "(nat \<Rightarrow> bool) \<Rightarrow> 'g student list \<Rightarrow> nat \<times> (string \<times> nat) list" where
  "analyze_patronyms W df =
     (let stud_without_patr = length (filter (\<lambda>patr. patr = []) (map patronim df));
          stud_with_patr = filter (\<lambda>r. patronim r \<noteq> []) df;
          genders = value_counts (map (gender_identification W) (map patronim stud_with_patr))
      in (stud_without_patr, genders))"

text \<open>
  \<open>stats\<close> is the table of the counts with the row labels \<open>1 .. len(faculties)\<close>; the
  smallest faculty is read at the last label first, then the largest at label 1.
\<close>

definition faculty_statistics ::
    "'g student list \<Rightarrow> error + ((nat \<times> ustr \<times> nat) list \<times> (ustr \<times> nat) \<times> (ustr \<times> nat))" where
  "faculty_statistics data =
     (let faculties = value_counts (map fakultet data);
          stats = zip [1 ..< length faculties + 1] faculties
      in case at_label stats (length faculties) of
           Inl e \<Rightarrow> Inl e
         | Inr min_f \<Rightarrow>
             (case at_label stats 1 of
                Inl e \<Rightarrow> Inl e
              | Inr max_f \<Rightarrow> Inr (stats, max_f, min_f)))"

text \<open>The count of a bucket in the series of gender counts, 0 when the bucket is absent.\<close>

definition bucket :: "(string \<times> nat) list \<Rightarrow> string \<Rightarrow> nat" where
  "bucket genders g = (case map_of genders g of None \<Rightarrow> 0 | Some n \<Rightarrow> n)"

subsection \<open>The run detector as the specification words it\<close>

text \<open>
  The scan of the specification: go through the numbers from the left with a current
  group \<open>cur\<close>; a number whose difference from the previous one is not exactly 1 closes
  the current group and starts a new one. A group qualifies when its size is at least
  the threshold.
\<close>

fun scan_ids :: "int list \<Rightarrow> int list \<Rightarrow> int list list" where
  "scan_ids cur [] = (if cur = [] then [] else [cur])"
| "scan_ids cur (x # xs) =
     (if cur = [] then scan_ids [x] xs
      else if x - last cur = 1 then scan_ids (cur @ [x]) xs
      else cur # scan_ids [x] xs)"

definition find_runs_spec :: "nat \<Rightarrow> int list \<Rightarrow> int list list" where
  "find_runs_spec k ids = filter (\<lambda>g. k \<le> length g) (scan_ids [] ids)"

text \<open>
  A maximal group of consecutive integers of a sequence: a non-empty stretch of the
  sequence in which each number exceeds the one before by exactly 1, and which cannot
  be extended by the neighbour on either side.
\<close>

definition is_max_run :: "int list \<Rightarrow> int list \<Rightarrow> bool" where
  "is_max_run ids g \<longleftrightarrow>
     g \<noteq> [] \<and> successively (\<lambda>a b. b - a = 1) g \<and>
     (\<exists>pre suf. ids = pre @ g @ suf
        \<and> (pre = [] \<or> hd g - last pre \<noteq> 1)
        \<and> (suf = [] \<or> hd suf - last g \<noteq> 1))"

text \<open>The labels \<open>n, n + 1, ...\<close> spread over the rows of consecutive groups.\<close>

fun labels_of :: "nat \<Rightarrow> 'a list list \<Rightarrow> nat list" where
  "labels_of n [] = []"
| "labels_of n (b # bs) = replicate (length b) n @ labels_of (Suc n) bs"

subsection \<open>Tables as objects: the queries that assign columns\<close>

text \<open>
  Two queries assign derived columns to a table. To follow which table object they
  write to, tables live in a store, a list of table objects addressed by position. A
  table object holds the rows of the roster's columns and the derived columns \<open>pol\<close>
  (the column \<^verbatim>\<open>U+043F U+043E U+043B\<close>), \<open>diff\<close> and \<open>area\<close>, each absent until assigned;
  a cell without value (\<open>NaN\<close>) is \<open>None\<close>.
\<close>

type_synonym addr = nat

record 'g frame =
  rows :: "'g student list"
  pol :: "string option list option"
  diff :: "int option list option"
  area :: "nat list option"

type_synonym 'g store = "'g frame list"

definition frame_of :: "'g student list \<Rightarrow> 'g frame" where
  "frame_of rs = \<lparr>rows = rs, pol = None, diff = None, area = None\<rparr>"

definition alloc :: "'g frame \<Rightarrow> 'g store \<Rightarrow> addr \<times> 'g store" where
  "alloc f st = (length st, st @ [f])"

text \<open>
  \<open>df[mask]\<close> with a boolean mask: a new table object with the selected rows of every
  column (boolean indexing copies).
\<close>

definition getitem_mask :: "addr \<Rightarrow> bool list \<Rightarrow> 'g store \<Rightarrow> addr \<times> 'g store" where
  "getitem_mask a msk st =
     (let f = st ! a
      in alloc \<lparr>rows = select msk (rows f),
                pol = map_option (select msk) (pol f),
                diff = map_option (select msk) (diff f),
                area = map_option (select msk) (area f)\<rparr> st)"

text \<open>
  \<open>df.sort_values(by=isu, ascending=True)\<close>: a new table object with the rows of every
  column in ascending order of the student number.
\<close>

definition reorder_by_isu :: "'g student list \<Rightarrow> 'c list \<Rightarrow> 'c list" where
  "reorder_by_isu rs c = map snd (sort_key (\<lambda>p. isu (fst p)) (zip rs c))"

definition sort_values_isu :: "addr \<Rightarrow> 'g store \<Rightarrow> addr \<times> 'g store" where
  "sort_values_isu a st =
     (let f = st ! a
      in alloc \<lparr>rows = sort_key isu (rows f),
                pol = map_option (reorder_by_isu (rows f)) (pol f),
                diff = map_option (reorder_by_isu (rows f)) (diff f),
                area = map_option (reorder_by_isu (rows f)) (area f)\<rparr> st)"

text \<open>\<open>df[column] = values\<close>: writes the column into the table object at the address.\<close>

definition setitem_pol :: "addr \<Rightarrow> string option list \<Rightarrow> 'g store \<Rightarrow> 'g store" where
  "setitem_pol a c st = st[a := (st ! a)\<lparr>pol := Some c\<rparr>]"

definition setitem_diff :: "addr \<Rightarrow> int option list \<Rightarrow> 'g store \<Rightarrow> 'g store" where
  "setitem_diff a c st = st[a := (st ! a)\<lparr>diff := Some c\<rparr>]"

definition setitem_area :: "addr \<Rightarrow> nat list \<Rightarrow> 'g store \<Rightarrow> 'g store" where
  "setitem_area a c st = st[a := (st ! a)\<lparr>area := Some c\<rparr>]"

text \<open>
  Assigning a series computed on a subset of the rows: the values go to the rows of the
  subset and the other rows get no value.
\<close>

fun align :: "bool list \<Rightarrow> 'a list \<Rightarrow> 'a option list" where
  "align [] xs = []"
| "align (False # bs) xs = None # align bs xs"
| "align (True # bs) [] = None # align bs []"
| "align (True # bs) (x # xs) = Some x # align bs xs"

text \<open>
  \<open>find_consecutive_students\<close>: the sorted copy \<open>isu\<close> gets the columns \<open>diff\<close> and
  \<open>area\<close>; \<open>firsts\<close> holds the rows of the runs of at least 5 rows; the result is the
  table of the first 5 of them (\<open>head()\<close>) in the five columns selected.
\<close>

definition find_consecutive_students ::
    "addr \<Rightarrow> 'g store \<Rightarrow> (ustr \<times> ustr \<times> ustr \<times> ustr \<times> int) list \<times> 'g store" where
  "find_consecutive_students data st =
     (let (isu_t, st1) = sort_values_isu data st;
          d = diff_col (map isu (rows (st1 ! isu_t)));
          st2 = setitem_diff isu_t d st1;
          ar = area_col d;
          st3 = setitem_area isu_t ar st2;
          area_sizes = groupby_size ar;
          valid = valid_areas 5 area_sizes;
          (firsts, st4) = getitem_mask isu_t (map (\<lambda>l. l \<in> set valid) ar) st3
      in (take 5 (map (\<lambda>r. (fio r, fakultet r, kurs r, gruppa r, isu r)) (rows (st4 ! firsts))),
          st4))"

definition third_year :: ustr where
  "third_year = [0x33, 0x2D, 0x439]"

text \<open>
  \<open>highest_avg_grade_faculty\<close>. The float operations are arguments: \<open>mean\<close> is the mean
  that \<open>describe()\<close> reports, \<open>gt\<close> the comparison \<open>>\<close> and \<open>rnd\<close> the built-in
  \<open>round\<close>, which raises on a value that is not a number. The column \<open>pol\<close> is assigned
  to \<open>crs_stat\<close>, the table object that the first boolean indexing created.
\<close>

definition highest_avg_grade_faculty ::
    "('g list \<Rightarrow> 'g) \<Rightarrow> ('g \<Rightarrow> 'g \<Rightarrow> bool) \<Rightarrow> ('g \<Rightarrow> error + int) \<Rightarrow> (nat \<Rightarrow> bool)
      \<Rightarrow> addr \<Rightarrow> 'g store \<Rightarrow> (error + ustr \<times> string \<times> int) \<times> 'g store" where
  "highest_avg_grade_faculty mean gt rnd W data st =
     (let (crs_stat, st1) = getitem_mask data (map (\<lambda>r. kurs r = third_year) (rows (st ! data))) st;
          rs = rows (st1 ! crs_stat);
          fclts = unique (map fakultet rs);
          top_point_fclt_kw =
            map (\<lambda>fclt. (fclt, mean (map sredniy_ball (filter (\<lambda>r. fakultet r = fclt) rs)))) fclts
      in case max_by gt top_point_fclt_kw of
           Inl e \<Rightarrow> (Inl e, st1)
         | Inr top_point_fclt \<Rightarrow>
             (let in_top = map (\<lambda>r. fakultet r = top_point_fclt) rs;
                  (sub, st2) = getitem_mask crs_stat in_top st1;
                  genders = map (\<lambda>r. gender_identification W (patronim r)) (rows (st2 ! sub));
                  pol_col = align in_top genders;
                  st3 = setitem_pol crs_stat pol_col st2;
                  (sub_m, st4) = getitem_mask crs_stat in_top st3;
                  (males, st5) =
                    getitem_mask sub_m (select in_top (map (\<lambda>p. p = Some ''male'') pol_col)) st4;
                  crs_stat_m = mean (map sredniy_ball (rows (st5 ! males)));
                  (sub_w, st6) = getitem_mask crs_stat in_top st5;
                  (females, st7) =
                    getitem_mask sub_w (select in_top (map (\<lambda>p. p = Some ''female'') pol_col)) st6;
                  crs_stat_w = mean (map sredniy_ball (rows (st7 ! females)))
              in if gt crs_stat_m crs_stat_w
                 then (case rnd crs_stat_m of
                         Inl e \<Rightarrow> (Inl e, st7)
                       | Inr n \<Rightarrow> (Inr (top_point_fclt, ''male'', n), st7))
                 else (case rnd crs_stat_w of
                         Inl e \<Rightarrow> (Inl e, st7)
                       | Inr n \<Rightarrow> (Inr (top_point_fclt, ''female'', n), st7))))"

subsection \<open>Example rosters\<close>

text \<open>
  A row from its name parts, faculty, group, course, student number and grade; the full
  name is the parts joined by spaces.
\<close>

definition mk_row ::
    "ustr \<Rightarrow> ustr \<Rightarrow> ustr \<Rightarrow> ustr \<Rightarrow> ustr \<Rightarrow> ustr \<Rightarrow> int \<Rightarrow> 'g \<Rightarrow> 'g student" where
  "mk_row s n p f g k i b =
     \<lparr>fio = s @ [0x20] @ n @ (if p = [] then [] else 0x20 # p),
      fakultet = f, gruppa = g, kurs = k, isu = i, sredniy_ball = b,
      surname = s, name = n, patronim = p\<rparr>"

text \<open>
  Six students with the numbers 10 to 15, not in order; three share one surname and two
  another; one has no patronymic; five are in the third year.
\<close>

definition example_roster :: "int student list" where
  "example_roster =
     [mk_row [0x418] [0x410] [0x418, 0x432, 0x430, 0x43D, 0x43E, 0x432, 0x43D, 0x430]
        [0x424] [0x41A, 0x31] third_year 15 5,
      mk_row [0x41F] [0x411] [0x418, 0x432, 0x430, 0x43D, 0x43E, 0x432, 0x438, 0x447]
        [0x424] [0x41A, 0x31] third_year 10 4,
      mk_row [0x418] [0x412] [0x418, 0x432, 0x430, 0x43D, 0x43E, 0x432, 0x438, 0x447]
        [0x422] [0x41A, 0x32] third_year 12 3,
      mk_row [0x421] [0x413] []
        [0x422] [0x41A, 0x32] third_year 11 4,
      mk_row [0x41F] [0x414] [0x418, 0x432, 0x430, 0x43D, 0x43E, 0x432, 0x43D, 0x430]
        [0x424] [0x41A, 0x32] third_year 14 5,
      mk_row [0x418] [0x415] [0x418, 0x432, 0x430, 0x43D, 0x43E, 0x432, 0x43D, 0x430]
        [0x424] [0x41A, 0x31] [0x31, 0x2D, 0x439] 13 2]"

text \<open>The students with the numbers \<open>a\<close> up to \<open>b - 1\<close>, all of the faculty \<open>f\<close>.\<close>

definition enrol :: "ustr \<Rightarrow> nat \<Rightarrow> nat \<Rightarrow> int student list" where
  "enrol f a b = map (\<lambda>i. mk_row [0x418] [0x410] [] f [0x41A, 0x31] third_year (int i) 4) [a ..< b]"

text \<open>A roster of 5 students of the faculty \<open>C\<close>, 10 of \<open>A\<close> and 20 of \<open>B\<close>.\<close>

definition three_faculties :: "int student list" where
  "three_faculties = enrol [0x43] 0 5 @ enrol [0x41] 5 15 @ enrol [0x42] 15 35"

section \<open>Properties of the pattern matcher\<close>

lemma prev_after_Cons: "prev_after p (c # xs) = prev_after (Some c) xs"
  by (simp add: prev_after_def)

lemma prev_after_Nil: "prev_after p [] = p"
  by (simp add: prev_after_def)

lemma star_states_self: "(p, rest) \<in> set (star_states cs p rest)"
  by (cases rest) simp_all

lemma star_states_complete:
  "\<forall>c\<in>set xs. in_cls cs c \<Longrightarrow> (prev_after p xs, ys) \<in> set (star_states cs p (xs @ ys))"
proof (induction xs arbitrary: p)
  case Nil
  show ?case by (simp add: prev_after_Nil star_states_self)
next
  case (Cons c xs)
  then have "(prev_after (Some c) xs, ys) \<in> set (star_states cs (Some c) (xs @ ys))"
    by simp
  with Cons.prems show ?case by (simp add: prev_after_Cons)
qed

lemma star_states_sound:
  "(q, ys) \<in> set (star_states cs p rest) \<Longrightarrow>
     \<exists>xs. rest = xs @ ys \<and> q = prev_after p xs \<and> (\<forall>c\<in>set xs. in_cls cs c)"
proof (induction rest arbitrary: p)
  case Nil
  then have "[] = [] @ ys \<and> q = prev_after p [] \<and> (\<forall>c\<in>set []. in_cls cs c)"
    by (simp add: prev_after_Nil)
  then show ?case by (rule exI)
next
  case (Cons c r)
  show ?case
  proof (cases "(q, ys) = (p, c # r)")
    case True
    then have "c # r = [] @ ys \<and> q = prev_after p [] \<and> (\<forall>c\<in>set []. in_cls cs c)"
      by (simp add: prev_after_Nil)
    then show ?thesis by (rule exI)
  next
    case False
    with Cons.prems have c: "in_cls cs c" and "(q, ys) \<in> set (star_states cs (Some c) r)"
      by (auto split: if_splits)
    from Cons.IH [OF this(2)] obtain xs where
      xs: "r = xs @ ys" "q = prev_after (Some c) xs" "\<forall>c\<in>set xs. in_cls cs c"
      by blast
    with c have "c # r = (c # xs) @ ys \<and> q = prev_after p (c # xs)
        \<and> (\<forall>d\<in>set (c # xs). in_cls cs d)"
      by (simp add: prev_after_Cons)
    then show ?thesis by (rule exI)
  qed
qed

lemma star_states_iff:
  "(q, ys) \<in> set (star_states cs p rest) \<longleftrightarrow>
     (\<exists>xs. rest = xs @ ys \<and> q = prev_after p xs \<and> (\<forall>c\<in>set xs. in_cls cs c))"
proof
  assume "(q, ys) \<in> set (star_states cs p rest)"
  then show "\<exists>xs. rest = xs @ ys \<and> q = prev_after p xs \<and> (\<forall>c\<in>set xs. in_cls cs c)"
    by (rule star_states_sound)
next
  assume "\<exists>xs. rest = xs @ ys \<and> q = prev_after p xs \<and> (\<forall>c\<in>set xs. in_cls cs c)"
  then obtain xs where "rest = xs @ ys" "q = prev_after p xs" "\<forall>c\<in>set xs. in_cls cs c"
    by blast
  then show "(q, ys) \<in> set (star_states cs p rest)"
    by (simp add: star_states_complete)
qed


lemma plus_states_iff:
  "(q, ys) \<in> set (plus_states cs p rest) \<longleftrightarrow>
     (\<exists>xs. xs \<noteq> [] \<and> rest = xs @ ys \<and> q = prev_after p xs \<and> (\<forall>c\<in>set xs. in_cls cs c))"
  (is "?L \<longleftrightarrow> ?R")
proof
  assume l: ?L
  then obtain c r where rest: "rest = c # r" and c: "in_cls cs c"
    and "(q, ys) \<in> set (star_states cs (Some c) r)"
    by (cases rest) (auto simp: plus_states_def split: if_splits)
  then obtain xs where "r = xs @ ys" "q = prev_after (Some c) xs" "\<forall>c\<in>set xs. in_cls cs c"
    unfolding star_states_iff by blast
  with rest c have "c # xs \<noteq> [] \<and> rest = (c # xs) @ ys \<and> q = prev_after p (c # xs)
      \<and> (\<forall>d\<in>set (c # xs). in_cls cs d)"
    by (simp add: prev_after_Cons)
  then show ?R by (rule exI)
next
  assume ?R
  then obtain xs where xs: "xs \<noteq> []" "rest = xs @ ys" "q = prev_after p xs"
    "\<forall>c\<in>set xs. in_cls cs c" by blast
  then obtain c xs' where c: "xs = c # xs'" by (cases xs) auto
  with xs have "(q, ys) \<in> set (star_states cs (Some c) (xs' @ ys))"
    by (simp add: prev_after_Cons star_states_complete)
  with xs c show ?L by (simp add: plus_states_def)
qed

lemma lit_states_iff:
  "(q, ys) \<in> set (lit_states w p rest) \<longleftrightarrow> rest = w @ ys \<and> q = prev_after p w"
proof (cases "take (length w) rest = w")
  case True
  then have "rest = w @ drop (length w) rest" by (metis append_take_drop_id)
  then obtain d where d: "rest = w @ d" ..
  then show ?thesis by (auto simp: lit_states_def)
next
  case False
  then have "\<And>ys. rest \<noteq> w @ ys" by auto
  with False show ?thesis by (simp add: lit_states_def)
qed

lemma starts_self: "(p, s) \<in> set (starts p s)"
  by (cases s) simp_all

lemma starts_iff:
  "(q, suf) \<in> set (starts p s) \<longleftrightarrow> (\<exists>pre. s = pre @ suf \<and> q = prev_after p pre)"
proof (induction s arbitrary: p)
  case Nil
  show ?case by (auto simp: prev_after_Nil)
next
  case (Cons c r)
  show ?case (is "?L \<longleftrightarrow> ?R")
  proof
    assume ?L
    then consider "(q, suf) = (p, c # r)" | "(q, suf) \<in> set (starts (Some c) r)" by auto
    then show ?R
    proof cases
      case 1
      then have "c # r = [] @ suf \<and> q = prev_after p []" by (simp add: prev_after_Nil)
      then show ?thesis by (rule exI)
    next
      case 2
      then obtain pre where "r = pre @ suf" "q = prev_after (Some c) pre"
        unfolding Cons.IH by blast
      then have "c # r = (c # pre) @ suf \<and> q = prev_after p (c # pre)"
        by (simp add: prev_after_Cons)
      then show ?thesis by (rule exI)
    qed
  next
    assume ?R
    then obtain pre where pre: "c # r = pre @ suf" "q = prev_after p pre" by blast
    show ?L
    proof (cases pre)
      case Nil
      with pre have "(q, suf) = (p, c # r)" by (simp add: prev_after_Nil)
      then show ?thesis by simp
    next
      case (Cons d pre')
      with pre have "r = pre' @ suf \<and> q = prev_after (Some c) pre'"
        by (simp add: prev_after_Cons)
      then have "(q, suf) \<in> set (starts (Some c) r)" unfolding Cons.IH by (rule exI)
      then show ?thesis by simp
    qed
  qed
qed

lemma first_match_None_iff:
  "(case l of [] \<Rightarrow> None | (st, e) # _ \<Rightarrow> Some (g st e)) \<noteq> None \<longleftrightarrow> l \<noteq> []"
  by (cases l) (simp_all split: prod.splits)

lemma re_search_iff:
  "re_search W r s \<noteq> None \<longleftrightarrow> (\<exists>st\<in>set (starts None s). match_seq W r st \<noteq> [])"
proof -
  let ?l = "concat (map (\<lambda>st. map (\<lambda>e. (st, e)) (take 1 (match_seq W r st))) (starts None s))"
  have "re_search W r s \<noteq> None \<longleftrightarrow> ?l \<noteq> []"
    unfolding re_search_def by (rule first_match_None_iff)
  moreover have "?l = [] \<longleftrightarrow> (\<forall>st\<in>set (starts None s). match_seq W r st = [])"
    by (simp add: take_eq_Nil)
  ultimately show ?thesis by blast
qed

lemma re_search_iff2:
  "re_search W r s \<noteq> None \<longleftrightarrow>
     (\<exists>pre suf. s = pre @ suf \<and> match_seq W r (prev_after None pre, suf) \<noteq> [])"
proof -
  have "(\<exists>st\<in>set (starts None s). match_seq W r st \<noteq> []) \<longleftrightarrow>
     (\<exists>q suf. (q, suf) \<in> set (starts None s) \<and> match_seq W r (q, suf) \<noteq> [])"
    by auto
  also have "\<dots> \<longleftrightarrow> (\<exists>pre suf. s = pre @ suf \<and> match_seq W r (prev_after None pre, suf) \<noteq> [])"
    unfolding starts_iff by blast
  finally show ?thesis unfolding re_search_iff .
qed

lemma match_seq_step:
  "match_seq W (it # its) st \<noteq> [] \<longleftrightarrow>
     (\<exists>q ys. (q, ys) \<in> set (match_item W it st) \<and> match_seq W its (q, ys) \<noteq> [])"
  by auto

lemma match_seq_Bol:
  "match_seq W (Bol # its) (p, rest) \<noteq> [] \<longleftrightarrow> p = None \<and> match_seq W its (p, rest) \<noteq> []"
  by auto

lemma match_seq_WordB:
  "match_seq W (WordB # its) (p, rest) \<noteq> [] \<longleftrightarrow>
     at_boundary W p rest \<and> match_seq W its (p, rest) \<noteq> []"
  by simp

lemma match_seq_Star:
  "match_seq W (Star cs # its) (p, rest) \<noteq> [] \<longleftrightarrow>
     (\<exists>xs ys. rest = xs @ ys \<and> (\<forall>c\<in>set xs. in_cls cs c)
        \<and> match_seq W its (prev_after p xs, ys) \<noteq> [])"
  unfolding match_seq_step match_item.simps star_states_iff by blast

lemma match_seq_Plus:
  "match_seq W (Plus cs # its) (p, rest) \<noteq> [] \<longleftrightarrow>
     (\<exists>xs ys. xs \<noteq> [] \<and> rest = xs @ ys \<and> (\<forall>c\<in>set xs. in_cls cs c)
        \<and> match_seq W its (prev_after p xs, ys) \<noteq> [])"
  unfolding match_seq_step match_item.simps plus_states_iff by blast

lemma alt_states_iff:
  "(q, ys) \<in> set (match_item W (Alt ws) (p, rest)) \<longleftrightarrow>
     (\<exists>w\<in>set ws. rest = w @ ys \<and> q = prev_after p w)"
  by (simp add: lit_states_iff)

lemma match_seq_Alt:
  "match_seq W (Alt ws # its) (p, rest) \<noteq> [] \<longleftrightarrow>
     (\<exists>w ys. w \<in> set ws \<and> rest = w @ ys \<and> match_seq W its (prev_after p w, ys) \<noteq> [])"
  unfolding match_seq_step alt_states_iff by blast


lemma female_endings_nonempty: "e \<in> {evna, ovna, ichna, inichna} \<Longrightarrow> e \<noteq> []"
  by (auto simp: evna_def ovna_def ichna_def inichna_def)

lemma male_endings_nonempty: "e \<in> {ovich, evich, ich} \<Longrightarrow> e \<noteq> []"
  by (auto simp: ovich_def evich_def ich_def)

lemma prev_after_nonempty: "e \<noteq> [] \<Longrightarrow> prev_after p e = Some (last e)"
  by (simp add: prev_after_def)

lemma female_match_at:
  "match_seq W female_patr (p, rest) \<noteq> [] \<longleftrightarrow>
     (\<exists>stem e suf. rest = stem @ e @ suf
        \<and> stem \<noteq> [] \<and> (\<forall>c\<in>set stem. in_cls cyr c)
        \<and> e \<in> {evna, ovna, ichna, inichna}
        \<and> at_boundary W p rest
        \<and> at_boundary W (Some (last e)) suf)"
  (is "?L \<longleftrightarrow> ?R")
proof -
  have "?L \<longleftrightarrow> (at_boundary W p rest \<and>
      (\<exists>stem r1. stem \<noteq> [] \<and> rest = stem @ r1 \<and> (\<forall>c\<in>set stem. in_cls cyr c) \<and>
        (\<exists>e suf. e \<in> set [evna, ovna, ichna, inichna] \<and> r1 = e @ suf \<and>
           at_boundary W (prev_after (prev_after p stem) e) suf)))"
    unfolding female_patr_def match_seq_WordB match_seq_Plus match_seq_Alt
    by simp
  also have "\<dots> \<longleftrightarrow> (at_boundary W p rest \<and>
      (\<exists>stem r1. stem \<noteq> [] \<and> rest = stem @ r1 \<and> (\<forall>c\<in>set stem. in_cls cyr c) \<and>
        (\<exists>e suf. e \<in> {evna, ovna, ichna, inichna} \<and> r1 = e @ suf \<and>
           at_boundary W (Some (last e)) suf)))"
    using female_endings_nonempty prev_after_nonempty by (metis list.set(1,2))
  also have "\<dots> \<longleftrightarrow> ?R" by blast
  finally show ?thesis .
qed


lemma female_search_iff:
  "re_search W female_patr s \<noteq> None \<longleftrightarrow>
     (\<exists>pre stem e suf. s = pre @ stem @ e @ suf
        \<and> stem \<noteq> [] \<and> (\<forall>c\<in>set stem. in_cls cyr c)
        \<and> e \<in> {evna, ovna, ichna, inichna}
        \<and> at_boundary W (prev_after None pre) (stem @ e @ suf)
        \<and> at_boundary W (Some (last e)) suf)"
  unfolding re_search_iff2 female_match_at by blast

lemma in_cyr_dash: "in_cls cyr_dash c \<longleftrightarrow> in_cls cyr c \<or> c \<in> {0x2D, 0x2013}"
  by (auto simp: in_cls_def cyr_dash_def cyr_def)

lemma male_match_at:
  "match_seq W male_patr (p, rest) \<noteq> [] \<longleftrightarrow>
     (\<exists>pre stem e suf. rest = pre @ stem @ e @ suf
        \<and> (\<forall>c\<in>set pre. in_cls cyr c \<or> c \<in> {0x2D, 0x2013})
        \<and> stem \<noteq> [] \<and> (\<forall>c\<in>set stem. in_cls cyr c)
        \<and> e \<in> {ovich, evich, ich}
        \<and> p = None \<and> at_boundary W None rest
        \<and> at_boundary W (Some (last e)) suf)"
  (is "?L \<longleftrightarrow> ?R")
proof -
  have "?L \<longleftrightarrow> (p = None \<and> at_boundary W p rest \<and>
      (\<exists>pre r0. rest = pre @ r0 \<and> (\<forall>c\<in>set pre. in_cls cyr_dash c) \<and>
      (\<exists>stem r1. stem \<noteq> [] \<and> r0 = stem @ r1 \<and> (\<forall>c\<in>set stem. in_cls cyr c) \<and>
        (\<exists>e suf. e \<in> set [ovich, evich, ich] \<and> r1 = e @ suf \<and>
           at_boundary W (prev_after (prev_after (prev_after p pre) stem) e) suf))))"
    unfolding male_patr_def match_seq_Bol match_seq_WordB match_seq_Star match_seq_Plus
      match_seq_Alt
    by simp
  also have "\<dots> \<longleftrightarrow> (p = None \<and> at_boundary W p rest \<and>
      (\<exists>pre r0. rest = pre @ r0 \<and> (\<forall>c\<in>set pre. in_cls cyr c \<or> c \<in> {0x2D, 0x2013}) \<and>
      (\<exists>stem r1. stem \<noteq> [] \<and> r0 = stem @ r1 \<and> (\<forall>c\<in>set stem. in_cls cyr c) \<and>
        (\<exists>e suf. e \<in> {ovich, evich, ich} \<and> r1 = e @ suf \<and>
           at_boundary W (Some (last e)) suf))))"
    unfolding in_cyr_dash
    using male_endings_nonempty prev_after_nonempty by (metis list.set(1,2))
  also have "\<dots> \<longleftrightarrow> ?R" by blast
  finally show ?thesis .
qed

lemma prev_after_None_iff: "prev_after None pre = None \<longleftrightarrow> pre = []"
  by (simp add: prev_after_def)

lemma male_search_iff:
  "re_search W male_patr s \<noteq> None \<longleftrightarrow>
     (\<exists>pre stem e suf. s = pre @ stem @ e @ suf
        \<and> (\<forall>c\<in>set pre. in_cls cyr c \<or> c \<in> {0x2D, 0x2013})
        \<and> stem \<noteq> [] \<and> (\<forall>c\<in>set stem. in_cls cyr c)
        \<and> e \<in> {ovich, evich, ich}
        \<and> at_boundary W None s
        \<and> at_boundary W (Some (last e)) suf)"
  (is "_ \<longleftrightarrow> ?R")
proof -
  have "re_search W male_patr s \<noteq> None \<longleftrightarrow>
      (\<exists>pre0 suf0. s = pre0 @ suf0 \<and> prev_after None pre0 = None
         \<and> match_seq W male_patr (None, suf0) \<noteq> [])"
    unfolding re_search_iff2 using male_match_at by metis
  also have "\<dots> \<longleftrightarrow> match_seq W male_patr (None, s) \<noteq> []"
    unfolding prev_after_None_iff by simp
  also have "\<dots> \<longleftrightarrow> ?R"
    unfolding male_match_at by simp
  finally show ?thesis .
qed

lemma cyr_is_letter: "in_cls cyr c \<Longrightarrow> cyrillic_letter c"
  by (auto simp: in_cls_def cyr_def cyrillic_letter_def)

text \<open>
  On a string all of whose Cyrillic letters are letters of the class, the rules of the
  specification and the searches of the two patterns agree.
\<close>

lemma female_word_search:
  assumes "\<forall>c\<in>set s. cyrillic_letter c \<longrightarrow> in_cls cyr c"
  shows "female_word W s \<longleftrightarrow> re_search W female_patr s \<noteq> None"
proof -
  have k: "(\<forall>c\<in>set stem. cyrillic_letter c) \<longleftrightarrow> (\<forall>c\<in>set stem. in_cls cyr c)"
    if "s = pre @ stem @ e @ suf" for pre stem e suf
    using that assms cyr_is_letter by auto
  show ?thesis
  proof
    assume "female_word W s"
    then obtain pre stem e suf where d: "s = pre @ stem @ e @ suf"
      and r: "stem \<noteq> []" "\<forall>c\<in>set stem. cyrillic_letter c" "e \<in> {evna, ovna, ichna, inichna}"
        "at_boundary W (prev_after None pre) (stem @ e @ suf)" "at_boundary W (Some (last e)) suf"
      unfolding female_word_def by blast
    from r(2) have "\<forall>c\<in>set stem. in_cls cyr c" by (simp only: k [OF d])
    with d r show "re_search W female_patr s \<noteq> None"
      unfolding female_search_iff by blast
  next
    assume "re_search W female_patr s \<noteq> None"
    then obtain pre stem e suf where d: "s = pre @ stem @ e @ suf"
      and r: "stem \<noteq> []" "\<forall>c\<in>set stem. in_cls cyr c" "e \<in> {evna, ovna, ichna, inichna}"
        "at_boundary W (prev_after None pre) (stem @ e @ suf)" "at_boundary W (Some (last e)) suf"
      unfolding female_search_iff by blast
    from r(2) have "\<forall>c\<in>set stem. cyrillic_letter c" by (simp only: k [OF d])
    with d r show "female_word W s"
      unfolding female_word_def by blast
  qed
qed

lemma male_word_search:
  assumes "\<forall>c\<in>set s. cyrillic_letter c \<longrightarrow> in_cls cyr c"
  shows "male_word {0x2D, 0x2013} W s \<longleftrightarrow> re_search W male_patr s \<noteq> None"
proof -
  have k: "(\<forall>c\<in>set stem. cyrillic_letter c) \<longleftrightarrow> (\<forall>c\<in>set stem. in_cls cyr c)"
    and k': "(\<forall>c\<in>set pre. cyrillic_letter c \<or> c \<in> {0x2D, 0x2013})
        \<longleftrightarrow> (\<forall>c\<in>set pre. in_cls cyr c \<or> c \<in> {0x2D, 0x2013})"
    if "s = pre @ stem @ e @ suf" for pre stem e suf
    using that assms cyr_is_letter by auto
  show ?thesis
  proof
    assume "male_word {0x2D, 0x2013} W s"
    then obtain pre stem e suf where d: "s = pre @ stem @ e @ suf"
      and p: "\<forall>c\<in>set pre. cyrillic_letter c \<or> c \<in> {0x2D, 0x2013}"
      and r: "stem \<noteq> []" "\<forall>c\<in>set stem. cyrillic_letter c" "e \<in> {ovich, evich, ich}"
        "at_boundary W None s" "at_boundary W (Some (last e)) suf"
      unfolding male_word_def by blast
    from p have "\<forall>c\<in>set pre. in_cls cyr c \<or> c \<in> {0x2D, 0x2013}" by (simp only: k' [OF d])
    moreover from r(2) have "\<forall>c\<in>set stem. in_cls cyr c" by (simp only: k [OF d])
    ultimately show "re_search W male_patr s \<noteq> None"
      unfolding male_search_iff using d r by blast
  next
    assume "re_search W male_patr s \<noteq> None"
    then obtain pre stem e suf where d: "s = pre @ stem @ e @ suf"
      and p: "\<forall>c\<in>set pre. in_cls cyr c \<or> c \<in> {0x2D, 0x2013}"
      and r: "stem \<noteq> []" "\<forall>c\<in>set stem. in_cls cyr c" "e \<in> {ovich, evich, ich}"
        "at_boundary W None s" "at_boundary W (Some (last e)) suf"
      unfolding male_search_iff by blast
    from p have "\<forall>c\<in>set pre. cyrillic_letter c \<or> c \<in> {0x2D, 0x2013}" by (simp only: k' [OF d])
    moreover from r(2) have "\<forall>c\<in>set stem. cyrillic_letter c" by (simp only: k [OF d])
    ultimately show "male_word {0x2D, 0x2013} W s"
      unfolding male_word_def using d r by blast
  qed
qed

lemmas rx_eval = gender_identification_def re_search_def female_patr_def male_patr_def
  plus_states_def lit_states_def prev_after_def at_boundary_def in_cls_def cyr_def cyr_dash_def
  evna_def ovna_def ichna_def inichna_def ovich_def evich_def ich_def

lemma uword_cyr:
  assumes "in_cls cyr c"
  shows "uword c"
proof -
  from assms have "0x400 \<le> c \<and> c \<le> 0x481"
    by (auto simp: in_cls_def cyr_def)
  then show ?thesis by (simp add: uword_def in_cls_def)
qed

section \<open>The classifier\<close>

text \<open>
  C1, as stated, at a compound joined by an em dash \<^verbatim>\<open>U+2014\<close>: the string is a
  compound of Cyrillic letters joined by the em dash and ends in the male ending, and
  it has no female match, yet the result is \<open>unknown\<close>: the class of the pattern holds
  the en dash \<^verbatim>\<open>U+2013\<close>, not the em dash.
\<close>

theorem gender_identification_em_dash:
  "male_word {0x2D, 0x2014} uword
     [0x420, 0x443, 0x441, 0x43B, 0x430, 0x43D, 0x2014,
      0x411, 0x435, 0x43A, 0x43E, 0x432, 0x438, 0x447]
   \<and> \<not> female_word uword
     [0x420, 0x443, 0x441, 0x43B, 0x430, 0x43D, 0x2014,
      0x411, 0x435, 0x43A, 0x43E, 0x432, 0x438, 0x447]
   \<and> gender_identification uword
     [0x420, 0x443, 0x441, 0x43B, 0x430, 0x43D, 0x2014,
      0x411, 0x435, 0x43A, 0x43E, 0x432, 0x438, 0x447] = ''unknown''"
proof (intro conjI)
  let ?s = "[0x420, 0x443, 0x441, 0x43B, 0x430, 0x43D, 0x2014,
      0x411, 0x435, 0x43A, 0x43E, 0x432, 0x438, 0x447] :: ustr"
  show "male_word {0x2D, 0x2014} uword ?s"
    unfolding male_word_def
    apply (rule exI [of _ "[0x420, 0x443, 0x441, 0x43B, 0x430, 0x43D, 0x2014]"])
    apply (rule exI [of _ "[0x411, 0x435, 0x43A]"])
    apply (rule exI [of _ "ovich"])
    apply (rule exI [of _ "[]"])
    apply (simp add: ovich_def at_boundary_def in_cls_def cyrillic_letter_def uword_def)
    done
  have n: "re_search uword female_patr ?s = None"
    by (simp add: rx_eval uword_def)
  have h: "\<forall>c\<in>set ?s. cyrillic_letter c \<longrightarrow> in_cls cyr c"
    by (simp add: cyrillic_letter_def in_cls_def cyr_def)
  show "\<not> female_word uword ?s"
  proof
    assume "female_word uword ?s"
    then have "re_search uword female_patr ?s \<noteq> None"
      by (rule female_word_search [OF h, THEN iffD1])
    from this n show False by (rule notE)
  qed
  show "gender_identification uword ?s = ''unknown''"
    by (simp add: rx_eval uword_def)
qed

text \<open>
  C1, amended: for every table of word characters and every string whose Cyrillic
  letters all lie in \<^verbatim>\<open>U+0410\<close> to \<^verbatim>\<open>U+044F\<close>, \<open>gender_identification\<close> returns \<open>female\<close>
  when the string contains a whole-word match of one or more Cyrillic letters followed by
  one of the four female endings; otherwise \<open>male\<close> when the string, from its start, is
  an optional compound of Cyrillic letters, hyphen-minus \<^verbatim>\<open>U+002D\<close> and en dash \<^verbatim>\<open>U+2013\<close>,
  followed by one or more Cyrillic letters and one of the three male endings, up to a
  word boundary; otherwise \<open>unknown\<close>. Nothing is stated about a string that holds
  another Cyrillic letter, such as \<^verbatim>\<open>U+0451\<close>.
\<close>

theorem gender_identification_refines:
  assumes "\<forall>c\<in>set s. cyrillic_letter c \<longrightarrow> in_cls cyr c"
  shows "gender_identification W s =
     (if female_word W s then ''female''
      else if male_word {0x2D, 0x2013} W s then ''male''
      else ''unknown'')"
  by (simp only: gender_identification_def female_word_search [OF assms]
      male_word_search [OF assms])

theorem gender_identification_refines_witness:
  "\<not> female_word uword
     [0x420, 0x443, 0x441, 0x43B, 0x430, 0x43D, 0x2013,
      0x411, 0x435, 0x43A, 0x43E, 0x432, 0x438, 0x447]
   \<and> male_word {0x2D, 0x2013} uword
     [0x420, 0x443, 0x441, 0x43B, 0x430, 0x43D, 0x2013,
      0x411, 0x435, 0x43A, 0x43E, 0x432, 0x438, 0x447]
   \<and> gender_identification uword
     [0x420, 0x443, 0x441, 0x43B, 0x430, 0x43D, 0x2013,
      0x411, 0x435, 0x43A, 0x43E, 0x432, 0x438, 0x447] = ''male''"
proof -
  let ?s = "[0x420, 0x443, 0x441, 0x43B, 0x430, 0x43D, 0x2013,
      0x411, 0x435, 0x43A, 0x43E, 0x432, 0x438, 0x447] :: ustr"
  have h: "\<forall>c\<in>set ?s. cyrillic_letter c \<longrightarrow> in_cls cyr c"
    by (simp add: cyrillic_letter_def in_cls_def cyr_def)
  have e: "gender_identification uword ?s = ''male''"
    by (simp add: rx_eval uword_def)
  have r: "''male'' =
     (if female_word uword ?s then ''female''
      else if male_word {0x2D, 0x2013} uword ?s then ''male''
      else ''unknown'')"
    using gender_identification_refines [of ?s uword, OF h] by (simp only: e)
  have f: "\<not> female_word uword ?s"
  proof
    assume "female_word uword ?s"
    with r have "''male'' = ''female''" by (simp only: if_True)
    then show False by simp
  qed
  have m: "male_word {0x2D, 0x2013} uword ?s"
  proof (rule ccontr)
    assume "\<not> male_word {0x2D, 0x2013} uword ?s"
    with r f have "''male'' = ''unknown''" by (simp only: if_False)
    then show False by simp
  qed
  from f m e show ?thesis by (intro conjI)
qed

text \<open>
  A patronymic spelled with \<^verbatim>\<open>U+0451\<close> lies outside the statement above. The class of the
  patterns does not hold this letter, though the pattern of
  \<open>find_students_with_name_starting_P\<close> adds it to the same ranges; on the name
  \<^verbatim>\<open>U+0424 U+0451 U+0434 U+043E U+0440 U+043E U+0432 U+043D U+0430\<close> the female pattern finds no
  whole word and the result is \<open>unknown\<close>, while the spelling with \<^verbatim>\<open>U+0435\<close> is \<open>female\<close>.
\<close>

lemma gender_identification_yo:
  "gender_identification uword [0x424, 0x451, 0x434, 0x43E, 0x440, 0x43E, 0x432, 0x43D, 0x430]
     = ''unknown''
   \<and> gender_identification uword [0x424, 0x435, 0x434, 0x43E, 0x440, 0x43E, 0x432, 0x43D, 0x430]
     = ''female''"
  by (simp add: rx_eval uword_def)

text \<open>
  C3, as stated, at its first test vector: the Latin spelling \<open>Ivanovna\<close> holds no
  letter of the class of the patterns, and the result is \<open>unknown\<close>, not \<open>female\<close>.
\<close>

theorem gender_identification_latin: "gender_identification uword (ascii ''Ivanovna'') = ''unknown''"
  by (simp add: rx_eval uword_def ascii_def)

text \<open>
  C3, amended: with the names in Cyrillic spelling, and for every table in which the
  letters of the class are word characters, \<open>gender_identification\<close> returns \<open>female\<close>
  for \<^verbatim>\<open>U+0418 U+0432 U+0430 U+043D U+043E U+0432 U+043D U+0430\<close>, \<open>male\<close> for the same
  stem with the ending \<^verbatim>\<open>U+043E U+0432 U+0438 U+0447\<close>, \<open>male\<close> for the compound joined
  by a hyphen-minus or by an en dash, and \<open>unknown\<close> for the empty string and for
  \<open>Xyz\<close>.
\<close>

theorem gender_identification_vectors:
  assumes "\<And>c. in_cls cyr c \<Longrightarrow> W c"
  shows "gender_identification W [0x418, 0x432, 0x430, 0x43D, 0x43E, 0x432, 0x43D, 0x430] = ''female''
    \<and> gender_identification W [0x418, 0x432, 0x430, 0x43D, 0x43E, 0x432, 0x438, 0x447] = ''male''
    \<and> gender_identification W
        [0x420, 0x443, 0x441, 0x43B, 0x430, 0x43D, 0x2D,
         0x411, 0x435, 0x43A, 0x43E, 0x432, 0x438, 0x447] = ''male''
    \<and> gender_identification W
        [0x420, 0x443, 0x441, 0x43B, 0x430, 0x43D, 0x2013,
         0x411, 0x435, 0x43A, 0x43E, 0x432, 0x438, 0x447] = ''male''
    \<and> gender_identification W [] = ''unknown''
    \<and> gender_identification W (ascii ''Xyz'') = ''unknown''"
  using assms by (intro conjI) (simp_all add: rx_eval ascii_def)

theorem gender_identification_vectors_witness:
  "gender_identification uword [0x418, 0x432, 0x430, 0x43D, 0x43E, 0x432, 0x43D, 0x430] = ''female''
    \<and> gender_identification uword [0x418, 0x432, 0x430, 0x43D, 0x43E, 0x432, 0x438, 0x447] = ''male''
    \<and> gender_identification uword
        [0x420, 0x443, 0x441, 0x43B, 0x430, 0x43D, 0x2D,
         0x411, 0x435, 0x43A, 0x43E, 0x432, 0x438, 0x447] = ''male''
    \<and> gender_identification uword
        [0x420, 0x443, 0x441, 0x43B, 0x430, 0x43D, 0x2013,
         0x411, 0x435, 0x43A, 0x43E, 0x432, 0x438, 0x447] = ''male''
    \<and> gender_identification uword [] = ''unknown''
    \<and> gender_identification uword (ascii ''Xyz'') = ''unknown''"
  by (rule gender_identification_vectors [of uword, OF uword_cyr])

section \<open>Properties of the column operations\<close>

lemma list_ex_sum_filter:
  "list_ex (\<lambda>n. 1 < n) (ns :: nat list) \<longleftrightarrow> 0 < sum_list (filter (\<lambda>n. 1 < n) ns)"
  by (induction ns) auto

lemma set_unique: "set (unique xs) = set xs"
  by (simp add: unique_def)

lemma distinct_unique: "distinct (unique xs)"
  by (simp add: unique_def)

lemma unique_Nil_iff: "unique xs = [] \<longleftrightarrow> xs = []"
  by (metis set_unique set_empty)

lemma sum_list_value_counts: "sum_list (map snd (value_counts xs)) = length xs"
proof -
  have "mset (map snd (value_counts xs)) = mset (map (count_list xs) (unique xs))"
    by (simp add: value_counts_def multiset.map_comp comp_def)
  then have "sum_list (map snd (value_counts xs)) = sum_list (map (count_list xs) (unique xs))"
    by (metis sum_mset_sum_list)
  also have "\<dots> = sum (count_list xs) (set (unique xs))"
    by (simp add: sum_list_distinct_conv_sum_set distinct_unique)
  also have "\<dots> = length xs"
    by (simp add: set_unique sum_count_set)
  finally show ?thesis .
qed

lemma set_value_counts: "set (value_counts xs) = (\<lambda>v. (v, count_list xs v)) ` set xs"
  by (simp add: value_counts_def set_unique)

lemma distinct_keys_value_counts: "distinct (map fst (value_counts xs))"
proof -
  have "mset (map fst (value_counts xs)) = mset (unique xs)"
    by (simp add: value_counts_def multiset.map_comp comp_def)
  then show ?thesis by (metis distinct_unique mset_eq_imp_distinct_iff)
qed

lemma map_of_value_counts:
  "map_of (value_counts xs) v = (if v \<in> set xs then Some (count_list xs v) else None)"
proof (cases "v \<in> set xs")
  case True
  then have "(v, count_list xs v) \<in> set (value_counts xs)" by (auto simp: set_value_counts)
  then have "map_of (value_counts xs) v = Some (count_list xs v)"
    using distinct_keys_value_counts by (rule map_of_is_SomeI [rotated])
  with True show ?thesis by simp
next
  case False
  then have "v \<notin> fst ` set (value_counts xs)" by (auto simp: set_value_counts)
  then have "map_of (value_counts xs) v = None" by (simp add: map_of_eq_None_iff)
  with False show ?thesis by simp
qed

lemma value_counts_Nil_iff: "value_counts xs = [] \<longleftrightarrow> xs = []"
  by (metis set_value_counts set_empty image_is_empty)

lemma bucket_value_counts: "bucket (value_counts xs) v = count_list xs v"
  by (simp add: bucket_def map_of_value_counts)

lemma gender_identification_range:
  "gender_identification W s \<in> {''female'', ''male'', ''unknown''}"
  by (simp add: gender_identification_def)

lemma three_counts:
  assumes "set xs \<subseteq> {a, b, c}" and "a \<noteq> b" and "a \<noteq> c" and "b \<noteq> c"
  shows "count_list xs a + count_list xs b + count_list xs c = length xs"
  using assms by (induction xs) auto

lemma max_by_isl: "isl (max_by gt items) \<longleftrightarrow> items = []"
  by (cases items) (simp_all add: max_by_def)

lemma sort_key_Nil_iff: "sort_key f xs = [] \<longleftrightarrow> xs = []"
  by (metis length_sort length_0_conv)

lemma find_homonymous_students_isl: "isl (find_homonymous_students df) \<longleftrightarrow> df = []"
proof -
  let ?df2 = "sort_key gruppa (sort_key kurs df)"
  let ?items = "map (\<lambda>g. (g, homonyms (filter (\<lambda>r. gruppa r = g) ?df2)))
      (unique (map gruppa ?df2))"
  have "isl (find_homonymous_students df) \<longleftrightarrow> isl (max_by (\<lambda>a b. b < a) ?items)"
    by (simp add: find_homonymous_students_def Let_def split: sum.splits)
  also have "\<dots> \<longleftrightarrow> ?items = []" by (rule max_by_isl)
  also have "\<dots> \<longleftrightarrow> df = []"
    by (simp add: unique_Nil_iff sort_key_Nil_iff)
  finally show ?thesis .
qed

lemma map_of_zip_from1:
  assumes "1 \<le> i" and "i \<le> length xs"
  shows "map_of (zip [1 ..< length xs + 1] xs) i = Some (xs ! (i - 1))"
proof -
  have "map_of (zip [1 ..< length xs + 1] xs) ([1 ..< length xs + 1] ! (i - 1)) = Some (xs ! (i - 1))"
    using assms by (intro map_of_zip_nth) auto
  moreover have "[1 ..< length xs + 1] ! (i - 1) = i"
    using assms nth_upt [of 1 "i - 1" "length xs + 1"] by simp
  ultimately show ?thesis by simp
qed

lemma faculty_statistics_value:
  assumes "data \<noteq> []"
  shows "faculty_statistics data =
    Inr (zip [1 ..< length (value_counts (map fakultet data)) + 1] (value_counts (map fakultet data)),
         hd (value_counts (map fakultet data)), last (value_counts (map fakultet data)))"
proof -
  let ?f = "value_counts (map fakultet data)"
  from assms have ne: "?f \<noteq> []" by (simp add: value_counts_Nil_iff)
  then have n: "1 \<le> length ?f" by (simp add: Suc_le_eq)
  have "map_of (zip [1 ..< length ?f + 1] ?f) (length ?f) = Some (?f ! (length ?f - 1))"
    using n by (intro map_of_zip_from1) auto
  moreover have "last ?f = ?f ! (length ?f - 1)" using ne by (rule last_conv_nth)
  ultimately have a: "at_label (zip [1 ..< length ?f + 1] ?f) (length ?f) = Inr (last ?f)"
    unfolding at_label_def by (simp only: option.case)
  have "map_of (zip [1 ..< length ?f + 1] ?f) 1 = Some (?f ! (1 - 1))"
    using n by (intro map_of_zip_from1) auto
  moreover have "hd ?f = ?f ! (1 - 1)" using ne by (simp add: hd_conv_nth)
  ultimately have b: "at_label (zip [1 ..< length ?f + 1] ?f) 1 = Inr (hd ?f)"
    unfolding at_label_def by (simp only: option.case)
  show ?thesis
    unfolding faculty_statistics_def Let_def a b by simp
qed

lemma faculty_statistics_empty: "faculty_statistics [] = Inl KeyError"
  by (simp add: faculty_statistics_def value_counts_def unique_def at_label_def)

lemma find_homonymous_students_empty: "find_homonymous_students [] = Inl ValueError"
  by (simp add: find_homonymous_students_def value_counts_def unique_def max_by_def)

lemma three_distinct_lists:
  assumes "distinct xs" and "set xs = {a, b, c}" and "a \<noteq> b" and "a \<noteq> c" and "b \<noteq> c"
  shows "xs \<in> {[a, b, c], [a, c, b], [b, a, c], [b, c, a], [c, a, b], [c, b, a]}"
proof -
  have "length xs = card {a, b, c}" using assms(1,2) by (metis distinct_card)
  also have "\<dots> = 3" using assms(3-5) by simp
  finally obtain x y z where xs: "xs = [x, y, z]"
    by (auto simp: numeral_3_eq_3 length_Suc_conv)
  from assms(1) xs have d: "x \<noteq> y" "x \<noteq> z" "y \<noteq> z" by auto
  from assms(2) xs have "x \<in> {a, b, c}" "y \<in> {a, b, c}" "z \<in> {a, b, c}" by auto
  with d have "[x, y, z] \<in> {[a, b, c], [a, c, b], [b, a, c], [b, c, a], [c, a, b], [c, b, a]}"
    by auto
  with xs show ?thesis by simp
qed

lemma value_counts_three:
  assumes "set xs = {a, b, c}" and "a \<noteq> b" and "a \<noteq> c" and "b \<noteq> c"
    and "count_list xs a = 10" and "count_list xs b = 20" and "count_list xs c = 5"
  shows "value_counts xs = [(b, 20), (a, 10), (c, 5)]"
proof -
  have "unique xs \<in> {[a, b, c], [a, c, b], [b, a, c], [b, c, a], [c, a, b], [c, b, a]}"
    using distinct_unique assms(1-4) by (intro three_distinct_lists) (simp_all add: set_unique)
  then consider "unique xs = [a, b, c]" | "unique xs = [a, c, b]" | "unique xs = [b, a, c]"
    | "unique xs = [b, c, a]" | "unique xs = [c, a, b]" | "unique xs = [c, b, a]"
    by auto
  then show ?thesis
    by cases (simp_all add: value_counts_def assms(5-7))
qed

lemma count_list_replicate: "count_list (replicate m x) y = (if x = y then m else 0)"
  by (induction m) auto

section \<open>Properties of the run detector\<close>

lemma concat_scan_ids: "concat (scan_ids cur xs) = cur @ xs"
  by (induction xs arbitrary: cur) auto

lemma scan_ids_nonempty: "g \<in> set (scan_ids cur xs) \<Longrightarrow> g \<noteq> []"
  by (induction xs arbitrary: cur) (auto split: if_splits)

lemma scan_ids_chain:
  "successively (\<lambda>a b. b - a = 1) cur \<Longrightarrow> g \<in> set (scan_ids cur xs)
     \<Longrightarrow> successively (\<lambda>a b. b - a = 1) g"
proof (induction xs arbitrary: cur)
  case Nil
  then show ?case by (auto split: if_splits)
next
  case (Cons x xs)
  show ?case
  proof (cases "cur = []")
    case True
    with Cons.prems have "g \<in> set (scan_ids [x] xs)" by simp
    then show ?thesis by (rule Cons.IH [rotated]) simp
  next
    case False
    show ?thesis
    proof (cases "x - last cur = 1")
      case True
      with False Cons.prems have "g \<in> set (scan_ids (cur @ [x]) xs)" by simp
      moreover have "successively (\<lambda>a b. b - a = 1) (cur @ [x])"
        using Cons.prems(1) False True by (simp add: successively_append_iff)
      ultimately show ?thesis by (rule Cons.IH [rotated])
    next
      case ne: False
      with False Cons.prems have "g = cur \<or> g \<in> set (scan_ids [x] xs)" by simp
      then show ?thesis
      proof
        assume "g = cur" with Cons.prems(1) show ?thesis by simp
      next
        assume "g \<in> set (scan_ids [x] xs)"
        then show ?thesis by (rule Cons.IH [rotated]) simp
      qed
    qed
  qed
qed

lemma scan_ids_chain_Nil:
  assumes "g \<in> set (scan_ids [] ids)"
  shows "successively (\<lambda>a b. b - a = 1) g"
proof -
  have "successively (\<lambda>a b. b - a = (1::int)) []" by (simp only: successively.simps)
  then show ?thesis using assms by (rule scan_ids_chain)
qed

lemma scan_ids_first:
  "cur \<noteq> [] \<Longrightarrow> \<exists>g gs. scan_ids cur xs = g # gs \<and> hd g = hd cur"
proof (induction xs arbitrary: cur)
  case Nil
  then show ?case by simp
next
  case (Cons x xs)
  show ?case
  proof (cases "x - last cur = 1")
    case True
    have "cur @ [x] \<noteq> []" by simp
    from Cons.IH [OF this] obtain g gs where "scan_ids (cur @ [x]) xs = g # gs" "hd g = hd (cur @ [x])"
      by blast
    with Cons.prems True show ?thesis by simp
  next
    case False
    with Cons.prems show ?thesis by simp
  qed
qed

lemma scan_ids_broken:
  "successively (\<lambda>g h. hd h - last g \<noteq> 1) (scan_ids cur xs)"
proof (induction xs arbitrary: cur)
  case Nil
  show ?case by simp
next
  case (Cons x xs)
  show ?case
  proof (cases "cur = [] \<or> x - last cur = 1")
    case True
    then show ?thesis using Cons.IH by auto
  next
    case False
    obtain g gs where g: "scan_ids [x] xs = g # gs" "hd g = x"
      using scan_ids_first [of "[x]" xs] by auto
    have "successively (\<lambda>g h. hd h - last g \<noteq> 1) (g # gs)"
      using Cons.IH [of "[x]"] g by simp
    with False g show ?thesis by simp
  qed
qed

lemma labels_of_ge: "x \<in> set (labels_of n bs) \<Longrightarrow> n \<le> x"
proof (induction bs arbitrary: n)
  case Nil
  then show ?case by simp
next
  case (Cons b bs)
  from Cons.prems have "x = n \<or> x \<in> set (labels_of (Suc n) bs)" by auto
  then show ?case using Cons.IH [of "Suc n"] by auto
qed

lemma cumsum_labels:
  "cur \<noteq> [] \<Longrightarrow>
     replicate (length cur) acc
       @ cumsum acc (map (\<lambda>d. d \<noteq> Some 1) (map (\<lambda>(a, b). Some (b - a)) (zip (last cur # xs) xs)))
     = labels_of acc (scan_ids cur xs)"
proof (induction xs arbitrary: cur acc)
  case Nil
  then show ?case by simp
next
  case (Cons x xs)
  show ?case
  proof (cases "x - last cur = 1")
    case True
    have "replicate (length (cur @ [x])) acc
       @ cumsum acc (map (\<lambda>d. d \<noteq> Some 1) (map (\<lambda>(a, b). Some (b - a)) (zip (last (cur @ [x]) # xs) xs)))
     = labels_of acc (scan_ids (cur @ [x]) xs)"
      by (rule Cons.IH) simp
    with True Cons.prems show ?thesis
      by (simp add: replicate_app_Cons_same)
  next
    case False
    have "replicate (length [x]) (Suc acc)
       @ cumsum (Suc acc) (map (\<lambda>d. d \<noteq> Some 1) (map (\<lambda>(a, b). Some (b - a)) (zip (last [x] # xs) xs)))
     = labels_of (Suc acc) (scan_ids [x] xs)"
      by (rule Cons.IH) simp
    with False Cons.prems show ?thesis by simp
  qed
qed

lemma area_col_labels: "area_col (diff_col ids) = labels_of 1 (scan_ids [] ids)"
proof (cases ids)
  case Nil
  then show ?thesis by (simp add: area_col_def diff_col_def)
next
  case (Cons x xs)
  have "replicate (length [x]) 1
       @ cumsum 1 (map (\<lambda>d. d \<noteq> Some 1) (map (\<lambda>(a, b). Some (b - a)) (zip (last [x] # xs) xs)))
     = labels_of 1 (scan_ids [x] xs)"
    by (rule cumsum_labels) simp
  with Cons show ?thesis by (simp add: area_col_def diff_col_def)
qed

lemma remdups_replicate_append:
  "0 < m \<Longrightarrow> x \<notin> set ys \<Longrightarrow> remdups (replicate m x @ ys) = x # remdups ys"
proof (induction m)
  case 0
  then show ?case by simp
next
  case (Suc m)
  show ?case
  proof (cases "m = 0")
    case True
    with Suc.prems show ?thesis by simp
  next
    case False
    with Suc show ?thesis by simp
  qed
qed

lemma groupby_size_block:
  assumes "0 < m" and "\<And>x. x \<in> set ls \<Longrightarrow> n < x"
  shows "groupby_size (replicate m n @ ls) = (n, m) # groupby_size ls"
proof -
  have notin: "n \<notin> set ls" using assms(2) by auto
  have r: "remdups (replicate m n @ ls) = n # remdups ls"
    using assms(1) notin by (rule remdups_replicate_append)
  have "\<forall>x\<in>set (sort (remdups ls)). n \<le> x" using assms(2) by (auto intro: less_imp_le)
  then have s: "sort (n # remdups ls) = n # sort (remdups ls)"
    by (simp add: insort_is_Cons)
  have c: "map (\<lambda>l. (l, count_list (replicate m n @ ls) l)) (sort (remdups ls))
      = map (\<lambda>l. (l, count_list ls l)) (sort (remdups ls))"
    using notin by (intro map_cong refl) (auto simp: count_list_replicate)
  show ?thesis
    unfolding groupby_size_def r s using notin c
    by (simp add: count_list_replicate)
qed

lemma select_append:
  "length m1 = length xs \<Longrightarrow> select (m1 @ m2) (xs @ ys) = select m1 xs @ select m2 ys"
  by (simp add: select_def)

lemma select_all: "select (replicate (length xs) True) xs = xs"
  by (induction xs) (simp_all add: select_def)

lemma select_none: "\<forall>b\<in>set msk. \<not> b \<Longrightarrow> select msk xs = []"
  by (induction msk arbitrary: xs) (auto simp: select_def zip_Cons1 split: list.splits)

lemma select_replicate: "select (replicate (length xs) b) xs = (if b then xs else [])"
  by (cases b) (simp_all add: select_all select_none)

lemma select_map: "map f (select msk xs) = select msk (map f xs)"
  by (induction msk arbitrary: xs) (auto simp: select_def zip_Cons1 split: list.splits)

lemma set_valid_areas: "set (valid_areas k (groupby_size ls)) \<subseteq> set ls"
  by (auto simp: valid_areas_def groupby_size_def)

lemma groups_of_blocks:
  assumes "\<And>b. b \<in> set bs \<Longrightarrow> b \<noteq> []"
  shows "map (\<lambda>l. select (map (\<lambda>a. a = l) (labels_of n bs)) (concat bs))
           (valid_areas k (groupby_size (labels_of n bs)))
         = filter (\<lambda>g. k \<le> length g) bs"
  using assms
proof (induction bs arbitrary: n)
  case Nil
  show ?case by (simp add: valid_areas_def groupby_size_def)
next
  case (Cons b bs)
  let ?L = "labels_of (Suc n) bs"
  let ?V = "valid_areas k (groupby_size ?L)"
  have b: "0 < length b" using Cons.prems by simp
  have gt: "n < x" if "x \<in> set ?L" for x
    using labels_of_ge [OF that] by simp
  have notin: "n \<notin> set ?L" using gt by auto
  have gs: "groupby_size (replicate (length b) n @ ?L) = (n, length b) # groupby_size ?L"
    using b gt by (rule groupby_size_block)
  have sel_n: "select (map (\<lambda>a. a = n) (replicate (length b) n @ ?L)) (b @ concat bs) = b"
  proof -
    have "select (map (\<lambda>a. a = n) ?L) (concat bs) = []"
      using notin by (intro select_none) auto
    then show ?thesis by (simp add: select_append select_all)
  qed
  have sel_l: "select (map (\<lambda>a. a = l) (replicate (length b) n @ ?L)) (b @ concat bs)
      = select (map (\<lambda>a. a = l) ?L) (concat bs)" if "l \<in> set ?V" for l
  proof -
    from that have "l \<in> set ?L" using set_valid_areas by blast
    then have "n \<noteq> l" using notin by auto
    then have "select (map (\<lambda>a. a = l) (replicate (length b) n)) b = []"
      by (intro select_none) auto
    then show ?thesis by (simp add: select_append)
  qed
  have IH: "map (\<lambda>l. select (map (\<lambda>a. a = l) ?L) (concat bs)) ?V = filter (\<lambda>g. k \<le> length g) bs"
    using Cons.prems by (intro Cons.IH) simp
  have tl: "map (\<lambda>l. select (map (\<lambda>a. a = l) (replicate (length b) n @ ?L)) (b @ concat bs)) ?V
      = filter (\<lambda>g. k \<le> length g) bs"
    using sel_l IH by (simp cong: map_cong)
  show ?case
  proof (cases "k \<le> length b")
    case True
    then have "valid_areas k (groupby_size (labels_of n (b # bs))) = n # ?V"
      by (simp add: gs valid_areas_def)
    with True sel_n tl show ?thesis by simp
  next
    case False
    then have "valid_areas k (groupby_size (labels_of n (b # bs))) = ?V"
      by (simp add: gs valid_areas_def)
    with False tl show ?thesis by simp
  qed
qed

lemma find_runs_scan: "find_runs k ids = filter (\<lambda>g. k \<le> length g) (scan_ids [] ids)"
proof -
  have "find_runs k ids =
      map (\<lambda>l. select (map (\<lambda>a. a = l) (labels_of 1 (scan_ids [] ids))) (concat (scan_ids [] ids)))
        (valid_areas k (groupby_size (labels_of 1 (scan_ids [] ids))))"
    by (simp add: find_runs_def Let_def area_col_labels concat_scan_ids)
  also have "\<dots> = filter (\<lambda>g. k \<le> length g) (scan_ids [] ids)"
    by (rule groups_of_blocks) (rule scan_ids_nonempty)
  finally show ?thesis .
qed

lemma firsts_of_blocks:
  assumes "\<And>b. b \<in> set bs \<Longrightarrow> b \<noteq> []"
  shows "select (map (\<lambda>l. l \<in> set (valid_areas k (groupby_size (labels_of n bs)))) (labels_of n bs))
           (concat bs)
         = concat (filter (\<lambda>g. k \<le> length g) bs)"
  using assms
proof (induction bs arbitrary: n)
  case Nil
  show ?case by (simp add: select_def)
next
  case (Cons b bs)
  let ?L = "labels_of (Suc n) bs"
  let ?V = "valid_areas k (groupby_size ?L)"
  let ?V' = "valid_areas k (groupby_size (labels_of n (b # bs)))"
  have b: "0 < length b" using Cons.prems by simp
  have gt: "n < x" if "x \<in> set ?L" for x
    using labels_of_ge [OF that] by simp
  have notin: "n \<notin> set ?L" using gt by auto
  have gs: "groupby_size (replicate (length b) n @ ?L) = (n, length b) # groupby_size ?L"
    using b gt by (rule groupby_size_block)
  have V': "?V' = (if k \<le> length b then [n] else []) @ ?V"
    by (simp add: gs valid_areas_def)
  have nV: "n \<notin> set ?V" using notin set_valid_areas by blast
  have mem_n: "n \<in> set ?V' \<longleftrightarrow> k \<le> length b"
    unfolding V' using nV by simp
  have mem_l: "l \<in> set ?V' \<longleftrightarrow> l \<in> set ?V" if "l \<in> set ?L" for l
    unfolding V' using that notin by auto
  have m1: "map (\<lambda>l. l \<in> set ?V') (replicate (length b) n) = replicate (length b) (k \<le> length b)"
    by (simp only: map_replicate mem_n)
  have m2: "map (\<lambda>l. l \<in> set ?V') ?L = map (\<lambda>l. l \<in> set ?V) ?L"
    using mem_l by (intro map_cong refl)
  have IH: "select (map (\<lambda>l. l \<in> set ?V) ?L) (concat bs) = concat (filter (\<lambda>g. k \<le> length g) bs)"
    using Cons.prems by (intro Cons.IH) simp
  have "select (map (\<lambda>l. l \<in> set ?V') (labels_of n (b # bs))) (concat (b # bs))
      = select (map (\<lambda>l. l \<in> set ?V') (replicate (length b) n) @ map (\<lambda>l. l \<in> set ?V') ?L)
          (b @ concat bs)"
    by simp
  also have "\<dots> = select (replicate (length b) (k \<le> length b)) b
      @ select (map (\<lambda>l. l \<in> set ?V) ?L) (concat bs)"
    unfolding m1 m2 by (rule select_append) simp
  also have "\<dots> = (if k \<le> length b then b else []) @ concat (filter (\<lambda>g. k \<le> length g) bs)"
    by (simp only: select_replicate IH)
  finally show ?case by simp
qed

lemma firsts_ids:
  "select (map (\<lambda>l. l \<in> set (valid_areas k (groupby_size (area_col (diff_col ids)))))
             (area_col (diff_col ids))) ids
   = concat (find_runs k ids)"
proof -
  have "select (map (\<lambda>l. l \<in> set (valid_areas k (groupby_size (labels_of 1 (scan_ids [] ids)))))
             (labels_of 1 (scan_ids [] ids))) (concat (scan_ids [] ids))
      = concat (filter (\<lambda>g. k \<le> length g) (scan_ids [] ids))"
    by (rule firsts_of_blocks) (rule scan_ids_nonempty)
  then show ?thesis
    by (simp add: area_col_labels concat_scan_ids find_runs_scan)
qed

lemma last_concat_nonempty:
  "bs \<noteq> [] \<Longrightarrow> last bs \<noteq> [] \<Longrightarrow> last (concat bs) = last (last bs)"
  by (induction bs) (auto simp: last_append)

lemma hd_concat_nonempty:
  "bs \<noteq> [] \<Longrightarrow> hd bs \<noteq> [] \<Longrightarrow> hd (concat bs) = hd (hd bs)"
  by (cases bs) auto

lemma block_is_max_run:
  assumes ne: "\<And>b. b \<in> set bs \<Longrightarrow> b \<noteq> []"
    and ch: "\<And>b. b \<in> set bs \<Longrightarrow> successively (\<lambda>a b. b - a = 1) b"
    and br: "successively (\<lambda>g h. hd h - last g \<noteq> 1) bs"
    and g: "g \<in> set bs"
  shows "is_max_run (concat bs) g"
proof -
  from g obtain B1 B2 where bs: "bs = B1 @ g # B2" by (auto dest: split_list)
  have pre: "concat B1 = [] \<or> hd g - last (concat B1) \<noteq> 1"
  proof (cases "B1 = []")
    case True
    then show ?thesis by simp
  next
    case False
    have "last B1 \<in> set bs" using False bs by simp
    then have l: "last B1 \<noteq> []" by (rule ne)
    from br bs False have "hd g - last (last B1) \<noteq> 1"
      by (simp add: successively_append_iff)
    then show ?thesis using False l by (simp add: last_concat_nonempty)
  qed
  have suf: "concat B2 = [] \<or> hd (concat B2) - last g \<noteq> 1"
  proof (cases "B2 = []")
    case True
    then show ?thesis by simp
  next
    case False
    have "hd B2 \<in> set bs" using False bs by simp
    then have l: "hd B2 \<noteq> []" by (rule ne)
    from br bs have "successively (\<lambda>g h. hd h - last g \<noteq> 1) (g # B2)"
      by (simp add: successively_append_iff)
    with False have "hd (hd B2) - last g \<noteq> 1"
      by (simp add: successively_Cons)
    then show ?thesis using False l by (simp add: hd_concat_nonempty)
  qed
  have "concat bs = concat B1 @ g @ concat B2" using bs by simp
  with pre suf have "\<exists>pre suf. concat bs = pre @ g @ suf
        \<and> (pre = [] \<or> hd g - last pre \<noteq> 1)
        \<and> (suf = [] \<or> hd suf - last g \<noteq> 1)"
    by blast
  with ne [OF g] ch [OF g] show ?thesis by (simp add: is_max_run_def)
qed

lemma max_run_is_block:
  assumes ne: "\<And>b. b \<in> set bs \<Longrightarrow> b \<noteq> []"
    and ch: "\<And>b. b \<in> set bs \<Longrightarrow> successively (\<lambda>a b. b - a = 1) b"
    and br: "successively (\<lambda>g h. hd h - last g \<noteq> 1) bs"
    and eq: "concat bs = pre @ g @ suf"
    and g: "g \<noteq> []" "successively (\<lambda>a b. b - a = 1) g"
    and p: "pre = [] \<or> hd g - last pre \<noteq> 1"
    and s: "suf = [] \<or> hd suf - last g \<noteq> 1"
  shows "g \<in> set bs"
  using ne ch br eq p
proof (induction bs arbitrary: pre)
  case Nil
  with g show ?case by simp
next
  case (Cons b bs)
  have bne: "b \<noteq> []" using Cons.prems(1) by simp
  have bch: "successively (\<lambda>a b. b - a = 1) b" using Cons.prems(2) by simp
  have ne': "\<And>c. c \<in> set bs \<Longrightarrow> c \<noteq> []" using Cons.prems(1) by simp
  have ch': "\<And>c. c \<in> set bs \<Longrightarrow> successively (\<lambda>a b. b - a = 1) c" using Cons.prems(2) by simp
  have br': "successively (\<lambda>g h. hd h - last g \<noteq> 1) bs"
    using Cons.prems(3) by (auto simp: successively_Cons)
  from Cons.prems(4) have "b @ concat bs = pre @ (g @ suf)" by simp
  then obtain us where
    "(b = pre @ us \<and> us @ concat bs = g @ suf) \<or> (b @ us = pre \<and> concat bs = us @ g @ suf)"
    unfolding append_eq_append_conv2 by blast
  then consider
    (later) us' where "b @ us' = pre" "concat bs = us' @ g @ suf"
    | (inside) "b = pre @ us" "us @ concat bs = g @ suf" "us \<noteq> []" "pre \<noteq> []"
    | (start) "pre = []" "b @ concat bs = g @ suf"
    by (cases "us = []"; cases "pre = []") auto
  then show ?case
  proof cases
    case later
    have "us' = [] \<or> hd g - last us' \<noteq> 1"
    proof (cases "us' = []")
      case True
      then show ?thesis by simp
    next
      case False
      with later(1) bne have "pre \<noteq> []" "last pre = last us'" by auto
      with Cons.prems(5) show ?thesis by simp
    qed
    with ne' ch' br' later(2) have "g \<in> set bs" by (rule Cons.IH)
    then show ?thesis by simp
  next
    case inside
    from bch inside(1,3,4) have "hd us - last pre = 1"
      by (simp add: successively_append_iff)
    moreover from inside(2,3) g(1) have "hd g = hd us"
      by (metis hd_append2)
    ultimately have "hd g - last pre = 1" by simp
    with Cons.prems(5) inside(4) show ?thesis by simp
  next
    case start
    from start(2) obtain vs where
      "(b = g @ vs \<and> vs @ concat bs = suf) \<or> (b @ vs = g \<and> concat bs = vs @ suf)"
      unfolding append_eq_append_conv2 by blast
    then show ?thesis
    proof
      assume a: "b = g @ vs \<and> vs @ concat bs = suf"
      show ?thesis
      proof (cases "vs = []")
        case True
        with a show ?thesis by simp
      next
        case False
        with a bch g(1) have "hd vs - last g = 1"
          by (simp add: successively_append_iff)
        moreover from a False have "suf \<noteq> []" "hd suf = hd vs" by auto
        ultimately show ?thesis using s by simp
      qed
    next
      assume a: "b @ vs = g \<and> concat bs = vs @ suf"
      show ?thesis
      proof (cases "vs = []")
        case True
        with a show ?thesis by simp
      next
        case False
        from a g(2) have "successively (\<lambda>a b. b - a = 1) (b @ vs)" by simp
        with bne False have 1: "hd vs - last b = 1"
          by (simp add: successively_append_iff)
        from a False obtain c cs where bs: "bs = c # cs" by (cases bs) auto
        then have "c \<noteq> []" using ne' by simp
        with a bs False have "hd c = hd vs"
          by (metis concat.simps(2) hd_append2)
        moreover from Cons.prems(3) bs have "hd c - last b \<noteq> 1" by simp
        ultimately show ?thesis using 1 by simp
      qed
    qed
  qed
qed

lemma is_max_run_scan: "is_max_run ids g \<longleftrightarrow> g \<in> set (scan_ids [] ids)"
proof
  assume "g \<in> set (scan_ids [] ids)"
  with scan_ids_nonempty scan_ids_chain_Nil scan_ids_broken
  have "is_max_run (concat (scan_ids [] ids)) g"
    by (rule block_is_max_run)
  then show "is_max_run ids g" by (simp add: concat_scan_ids)
next
  assume "is_max_run ids g"
  then obtain pre suf where g: "g \<noteq> []" "successively (\<lambda>a b. b - a = 1) g"
    and eq: "ids = pre @ g @ suf"
    and p: "pre = [] \<or> hd g - last pre \<noteq> 1"
    and s: "suf = [] \<or> hd suf - last g \<noteq> 1"
    unfolding is_max_run_def by blast
  from eq have "concat (scan_ids [] ids) = pre @ g @ suf" by (simp add: concat_scan_ids)
  with scan_ids_nonempty scan_ids_chain_Nil scan_ids_broken
  show "g \<in> set (scan_ids [] ids)" using g p s
    by (rule max_run_is_block)
qed

lemma sorted_concat_filter:
  "sorted (concat bs) \<Longrightarrow> sorted (concat (filter P bs))"
proof (induction bs)
  case Nil
  show ?case by simp
next
  case (Cons b bs)
  from Cons.prems have s: "sorted b" "sorted (concat bs)"
    and le: "\<forall>x\<in>set b. \<forall>y\<in>set (concat bs). x \<le> y"
    by (simp_all add: sorted_append)
  have "set (concat (filter P bs)) \<subseteq> set (concat bs)" by auto
  with le have "\<forall>x\<in>set b. \<forall>y\<in>set (concat (filter P bs)). x \<le> y" by blast
  with s Cons.IH show ?case by (simp add: sorted_append)
qed

lemma sorted_concat_find_runs: "sorted ids \<Longrightarrow> sorted (concat (find_runs k ids))"
  unfolding find_runs_scan
  by (rule sorted_concat_filter) (simp add: concat_scan_ids)

lemma length_concat_filter: "length (concat (filter P bs)) \<le> length (concat bs)"
  by (induction bs) auto

lemma take_concat_first:
  "n \<le> length g \<Longrightarrow> take n (concat (g # gs)) = take n g"
  by simp

section \<open>Properties of the table store\<close>

lemma map_isu_sort_key: "map isu (sort_key isu rs) = sort (map isu rs)"
proof -
  have "mset (map isu (sort_key isu rs)) = mset (map isu rs)" by simp
  moreover have "sorted (map isu (sort_key isu rs))" by (rule sorted_sort_key)
  ultimately show ?thesis by (metis properties_for_sort)
qed

lemma find_consecutive_students_value:
  "fst (find_consecutive_students data st) =
     take 5 (map (\<lambda>r. (fio r, fakultet r, kurs r, gruppa r, isu r))
       (select (map (\<lambda>l. l \<in> set (valid_areas 5 (groupby_size
                  (area_col (diff_col (map isu (sort_key isu (rows (st ! data)))))))))
                 (area_col (diff_col (map isu (sort_key isu (rows (st ! data)))))))
          (sort_key isu (rows (st ! data)))))"
  by (simp add: find_consecutive_students_def sort_values_isu_def getitem_mask_def
      setitem_diff_def setitem_area_def alloc_def Let_def)

lemma find_consecutive_students_ids:
  "map (\<lambda>t. snd (snd (snd (snd t)))) (fst (find_consecutive_students data st))
     = take 5 (concat (find_runs 5 (sort (map isu (rows (st ! data))))))"
proof -
  let ?rs = "sort_key isu (rows (st ! data))"
  let ?ar = "area_col (diff_col (map isu ?rs))"
  let ?msk = "map (\<lambda>l. l \<in> set (valid_areas 5 (groupby_size ?ar))) ?ar"
  have "map (\<lambda>t. snd (snd (snd (snd t)))) (fst (find_consecutive_students data st))
      = take 5 (map isu (select ?msk ?rs))"
    unfolding find_consecutive_students_value by (simp add: take_map comp_def)
  also have "\<dots> = take 5 (select ?msk (map isu ?rs))" by (simp only: select_map)
  also have "\<dots> = take 5 (concat (find_runs 5 (map isu ?rs)))" by (simp only: firsts_ids)
  finally show ?thesis by (simp only: map_isu_sort_key)
qed

lemma fst_getitem_mask: "fst (getitem_mask a msk s) = length s"
  by (simp add: getitem_mask_def alloc_def Let_def)

lemma take_length_le:
  assumes "take (length st) s = st"
  shows "length st \<le> length s"
proof -
  have "length (take (length st) s) = min (length s) (length st)" by (rule length_take)
  with assms have "length st = min (length s) (length st)" by simp
  then show ?thesis by linarith
qed

lemma getitem_mask_keeps:
  assumes "take (length st) s = st"
  shows "take (length st) (snd (getitem_mask a msk s)) = st"
proof -
  from assms have "length st \<le> length s" by (rule take_length_le)
  with assms show ?thesis
    by (simp add: getitem_mask_def alloc_def Let_def)
qed

lemma setitem_pol_keeps:
  "take (length st) s = st \<Longrightarrow> length st \<le> a \<Longrightarrow> take (length st) (setitem_pol a c s) = st"
  by (simp add: setitem_pol_def)

lemma find_consecutive_students_store:
  "take (length st) (snd (find_consecutive_students data st)) = st"
  by (simp add: find_consecutive_students_def sort_values_isu_def getitem_mask_def
      setitem_diff_def setitem_area_def alloc_def Let_def)

lemma highest_avg_grade_faculty_store:
  "take (length st) (snd (highest_avg_grade_faculty mean gt rnd W data st)) = st"
  unfolding highest_avg_grade_faculty_def Let_def case_prod_beta
  by (auto split: sum.splits
      intro!: getitem_mask_keeps setitem_pol_keeps simp: fst_getitem_mask)

lemma find_consecutive_students_writes:
  "diff (snd (find_consecutive_students data st) ! length st) \<noteq> None
   \<and> area (snd (find_consecutive_students data st) ! length st) \<noteq> None"
  by (simp add: find_consecutive_students_def sort_values_isu_def getitem_mask_def
      setitem_diff_def setitem_area_def alloc_def Let_def nth_append)

lemma getitem_mask_keeps_pol:
  assumes "n < length s \<and> pol (s ! n) \<noteq> None"
  shows "n < length (snd (getitem_mask a msk s)) \<and> pol (snd (getitem_mask a msk s) ! n) \<noteq> None"
  using assms by (simp add: getitem_mask_def alloc_def Let_def nth_append)

lemma setitem_pol_writes:
  assumes "n < length s"
  shows "n < length (setitem_pol n c s) \<and> pol (setitem_pol n c s ! n) \<noteq> None"
  using assms by (simp add: setitem_pol_def)

lemma length_getitem_mask: "length (snd (getitem_mask a msk s)) = Suc (length s)"
  by (simp add: getitem_mask_def alloc_def Let_def)

lemma pol_written_chain:
  "length st < length (snd (getitem_mask a4 m4 (snd (getitem_mask a3 m3 (snd (getitem_mask a2 m2 (snd (getitem_mask a1 m1 (setitem_pol (length st) c (snd (getitem_mask a0 m0 (snd (getitem_mask a m st)))))))))))))
   \<and> pol ((snd (getitem_mask a4 m4 (snd (getitem_mask a3 m3 (snd (getitem_mask a2 m2 (snd (getitem_mask a1 m1 (setitem_pol (length st) c (snd (getitem_mask a0 m0 (snd (getitem_mask a m st))))))))))))) ! length st) \<noteq> None"
  by (intro getitem_mask_keeps_pol setitem_pol_writes) (simp add: length_getitem_mask)

lemma snd_if_case:
  "snd (if c then (case r1 of Inl e \<Rightarrow> (Inl e, s) | Inr n \<Rightarrow> (f n, s))
        else (case r2 of Inl e \<Rightarrow> (Inl e, s) | Inr n \<Rightarrow> (g n, s))) = s"
  by (simp split: sum.splits)

lemma highest_avg_grade_faculty_writes:
  assumes "\<not> isl (fst (highest_avg_grade_faculty mean gt rnd W data st))"
  shows "length st < length (snd (highest_avg_grade_faculty mean gt rnd W data st))
    \<and> pol (snd (highest_avg_grade_faculty mean gt rnd W data st) ! length st) \<noteq> None"
  using assms
  unfolding highest_avg_grade_faculty_def Let_def case_prod_beta fst_getitem_mask
  by (cases rule: sum.exhaust [of "max_by gt
        (map (\<lambda>fclt. (fclt, mean (map sredniy_ball (filter (\<lambda>r. fakultet r = fclt)
            (rows (snd (getitem_mask data (map (\<lambda>r. kurs r = third_year) (rows (st ! data))) st)
               ! length st))))))
          (unique (map fakultet
            (rows (snd (getitem_mask data (map (\<lambda>r. kurs r = third_year) (rows (st ! data))) st)
               ! length st)))))"])
    (simp_all only: sum.case fst_conv isl_def snd_if_case pol_written_chain, auto)

lemma rows_getitem_mask:
  "rows (snd (getitem_mask a msk s) ! length s) = select msk (rows (s ! a))"
  by (simp add: getitem_mask_def alloc_def Let_def)

lemma fst_if_Inr: "\<not> isl (fst (if c then (Inr a, s) else (Inr b, s')))"
  by simp

lemma highest_avg_grade_faculty_returns:
  assumes "select (map (\<lambda>r. kurs r = third_year) (rows (st ! data))) (rows (st ! data)) \<noteq> []"
  shows "\<not> isl (fst (highest_avg_grade_faculty mean gt Inr W data st))"
proof -
  let ?kw = "map (\<lambda>fclt. (fclt, mean (map sredniy_ball (filter (\<lambda>r. fakultet r = fclt)
            (rows (snd (getitem_mask data (map (\<lambda>r. kurs r = third_year) (rows (st ! data))) st)
               ! length st))))))
          (unique (map fakultet
            (rows (snd (getitem_mask data (map (\<lambda>r. kurs r = third_year) (rows (st ! data))) st)
               ! length st))))"
  from assms have "?kw \<noteq> []"
    by (simp add: rows_getitem_mask unique_Nil_iff)
  then have "\<not> isl (max_by gt ?kw)" by (simp add: max_by_isl)
  then obtain top where top: "max_by gt ?kw = Inr top" by (cases "max_by gt ?kw") auto
  show ?thesis
    unfolding highest_avg_grade_faculty_def Let_def case_prod_beta fst_getitem_mask top
    by (simp only: sum.case fst_if_Inr not_False_eq_True)
qed

section \<open>The example rosters evaluated\<close>

lemmas roster_eval = example_roster_def mk_row_def third_year_def frame_of_def

lemma map_fakultet_enrol: "map fakultet (enrol f a b) = replicate (b - a) f"
  by (simp add: enrol_def mk_row_def comp_def map_replicate_const)

lemma find_runs_length: "g \<in> set (find_runs k ids) \<Longrightarrow> k \<le> length g"
  by (simp add: find_runs_scan)

lemma ex_homonymous:
  "find_homonymous_students (take 3 example_roster)
     = Inr (True, 2, [([0x33, 0x2D, 0x439], 2)], [0x41A, 0x31])"
  by (simp add: find_homonymous_students_def homonyms_def value_counts_def unique_def
      max_by_def roster_eval)

lemma ex_patronyms:
  "analyze_patronyms uword example_roster = (1, [(''female'', 3), (''male'', 2)])"
  by (simp add: analyze_patronyms_def value_counts_def unique_def roster_eval rx_eval uword_def)

lemma ex_runs: "find_runs 5 [1, 2, 3, 4, 5, 9, 10] = [[1, 2, 3, 4, 5]]"
  by (simp add: find_runs_scan)

lemma ex_runs4: "find_runs 4 [1, 2, 3, 4, 5, 9, 10] = [[1, 2, 3, 4, 5]]"
  by (simp add: find_runs_scan)

lemma ex_runs6: "find_runs 5 [10, 11, 12, 13, 14, 15] = [[10, 11, 12, 13, 14, 15]]"
  by (simp add: find_runs_scan)

lemma ex_sorted_ids: "sort (map isu (rows ([frame_of example_roster] ! 0))) = [10, 11, 12, 13, 14, 15]"
  by (simp add: roster_eval)

lemma ex_three_faculties:
  "set (map fakultet three_faculties) = {[0x41], [0x42], [0x43]}"
  "count_list (map fakultet three_faculties) [0x41] = 10"
  "count_list (map fakultet three_faculties) [0x42] = 20"
  "count_list (map fakultet three_faculties) [0x43] = 5"
  by (auto simp: three_faculties_def map_fakultet_enrol count_list_replicate)

lemma ex_third_year:
  "select (map (\<lambda>r. kurs r = third_year) (rows ([frame_of (take 2 example_roster)] ! 0)))
     (rows ([frame_of (take 2 example_roster)] ! 0)) \<noteq> []"
  by (simp add: roster_eval select_def)

lemma queries_empty_results:
  "filter_fsuir_students [] = (0, 0, [])
   \<and> analyze_patronyms W [] = (0, [])
   \<and> fst (find_consecutive_students 0 [frame_of []]) = []"
  by (simp add: filter_fsuir_students_def analyze_patronyms_def value_counts_def unique_def
      find_consecutive_students_value frame_of_def select_def)

section \<open>The run detector and its consumer\<close>

text \<open>
  C2: for every sequence of student numbers and every threshold, the groups of the
  detector are the groups the scan of the specification finds, they are exactly the
  maximal groups of consecutive integers of the sequence whose size is at least the
  threshold, and the rows that \<open>firsts\<close> selects are the rows of these groups in order.
  On the empty sequence there is no group, and on 1, 2, 3, 4, 5, 9, 10 with the threshold
  5 the only group is 1 to 5.
\<close>

theorem find_runs_maximal:
  "find_runs k ids = find_runs_spec k ids
   \<and> (\<forall>g. g \<in> set (find_runs k ids) \<longleftrightarrow> is_max_run ids g \<and> k \<le> length g)
   \<and> select (map (\<lambda>l. l \<in> set (valid_areas k (groupby_size (area_col (diff_col ids)))))
                (area_col (diff_col ids))) ids
       = concat (find_runs k ids)
   \<and> find_runs 5 [] = []
   \<and> find_runs 5 [1, 2, 3, 4, 5, 9, 10] = [[1, 2, 3, 4, 5]]"
proof (intro conjI allI)
  show "find_runs k ids = find_runs_spec k ids"
    by (simp only: find_runs_scan find_runs_spec_def)
  show "g \<in> set (find_runs k ids) \<longleftrightarrow> is_max_run ids g \<and> k \<le> length g" for g
    by (simp add: find_runs_scan is_max_run_scan)
  show "select (map (\<lambda>l. l \<in> set (valid_areas k (groupby_size (area_col (diff_col ids)))))
                (area_col (diff_col ids))) ids
       = concat (find_runs k ids)"
    by (rule firsts_ids)
  show "find_runs 5 [] = []" by (simp add: find_runs_scan)
  show "find_runs 5 [1, 2, 3, 4, 5, 9, 10] = [[1, 2, 3, 4, 5]]" by (rule ex_runs)
qed

theorem find_runs_maximal_witness:
  "find_runs_spec 5 [1, 2, 3, 4, 5, 9, 10] = [[1, 2, 3, 4, 5]]
   \<and> is_max_run [1, 2, 3, 4, 5, 9, 10] [1, 2, 3, 4, 5]
   \<and> \<not> is_max_run [1, 2, 3, 4, 5, 9, 10] [1, 2, 3, 4]"
proof -
  note t5 = find_runs_maximal [of 5 "[1, 2, 3, 4, 5, 9, 10]"]
  note t4 = find_runs_maximal [of 4 "[1, 2, 3, 4, 5, 9, 10]"]
  have a: "find_runs_spec 5 [1, 2, 3, 4, 5, 9, 10] = [[1, 2, 3, 4, 5]]"
    using t5 by (simp only: ex_runs)
  have "[1, 2, 3, 4, 5] \<in> set (find_runs 5 [1, 2, 3, 4, 5, 9, 10])" by (simp add: ex_runs)
  with t5 have b: "is_max_run [1, 2, 3, 4, 5, 9, 10] [1, 2, 3, 4, 5]" by blast
  have "[1, 2, 3, 4] \<notin> set (find_runs 4 [1, 2, 3, 4, 5, 9, 10])" by (simp add: ex_runs4)
  moreover have "(4::nat) \<le> length [1, 2, 3, 4 :: int]" by simp
  ultimately have c: "\<not> is_max_run [1, 2, 3, 4, 5, 9, 10] [1, 2, 3, 4]" using t4 by blast
  from a b c show ?thesis by (intro conjI)
qed

text \<open>
  C4: for every sequence of student numbers, the groups the detector returns hold
  together at most as many numbers as the sequence has, and in every returned group each
  number exceeds the one before by exactly 1.
\<close>

theorem find_runs_bounded:
  "length (concat (find_runs k ids)) \<le> length ids
   \<and> (\<forall>g\<in>set (find_runs k ids). successively (\<lambda>a b. b - a = 1) g)"
proof
  have "length (concat (find_runs k ids)) \<le> length (concat (scan_ids [] ids))"
    unfolding find_runs_scan by (rule length_concat_filter)
  then show "length (concat (find_runs k ids)) \<le> length ids"
    by (simp only: concat_scan_ids append_Nil)
  show "\<forall>g\<in>set (find_runs k ids). successively (\<lambda>a b. b - a = 1) g"
    by (auto simp: find_runs_scan intro: scan_ids_chain_Nil)
qed

theorem find_runs_bounded_witness:
  "length (concat (find_runs 5 [1, 2, 3, 4, 5, 9, 10])) \<le> length [1, 2, 3, 4, 5, 9, 10 :: int]
   \<and> [1, 2, 3, 4, 5] \<in> set (find_runs 5 [1, 2, 3, 4, 5, 9, 10])
   \<and> successively (\<lambda>a b. b - a = 1) [1, 2, 3, 4, 5 :: int]"
proof -
  note t = find_runs_bounded [of 5 "[1, 2, 3, 4, 5, 9, 10]"]
  have m: "[1, 2, 3, 4, 5] \<in> set (find_runs 5 [1, 2, 3, 4, 5, 9, 10])" by (simp add: ex_runs)
  with t have "successively (\<lambda>a b. b - a = 1) [1, 2, 3, 4, 5 :: int]" by blast
  with t m show ?thesis by blast
qed

text \<open>
  C5: the groups of the detector on the sorted student numbers are in ascending order of
  number, and the student numbers of the table that \<open>find_consecutive_students\<close> returns
  are the first 5 of the first group (none when there is no group). On the numbers 10
  to 15 the detector yields the one group of all six.
\<close>

theorem find_consecutive_students_head:
  assumes "data < length st"
  shows "map (\<lambda>t. snd (snd (snd (snd t)))) (fst (find_consecutive_students data st))
       = (case find_runs 5 (sort (map isu (rows (st ! data)))) of [] \<Rightarrow> [] | g # _ \<Rightarrow> take 5 g)
   \<and> sorted (concat (find_runs k (sort ids)))
   \<and> find_runs 5 [10, 11, 12, 13, 14, 15] = [[10, 11, 12, 13, 14, 15]]"
proof (intro conjI)
  let ?runs = "find_runs 5 (sort (map isu (rows (st ! data))))"
  have "take 5 (concat ?runs) = (case ?runs of [] \<Rightarrow> [] | g # _ \<Rightarrow> take 5 g)"
  proof (cases ?runs)
    case Nil
    then show ?thesis by simp
  next
    case (Cons g gs)
    then have "g \<in> set ?runs" by simp
    then have "5 \<le> length g" by (rule find_runs_length)
    with Cons show ?thesis by simp
  qed
  then show "map (\<lambda>t. snd (snd (snd (snd t)))) (fst (find_consecutive_students data st))
       = (case ?runs of [] \<Rightarrow> [] | g # _ \<Rightarrow> take 5 g)"
    by (simp only: find_consecutive_students_ids)
  show "sorted (concat (find_runs k (sort ids)))"
    by (rule sorted_concat_find_runs) simp
  show "find_runs 5 [10, 11, 12, 13, 14, 15] = [[10, 11, 12, 13, 14, 15]]" by (rule ex_runs6)
qed

theorem find_consecutive_students_head_witness:
  "find_runs 5 (sort (map isu (rows ([frame_of example_roster] ! 0))))
     = [[10, 11, 12, 13, 14, 15]]
   \<and> map (\<lambda>t. snd (snd (snd (snd t)))) (fst (find_consecutive_students 0 [frame_of example_roster]))
     = [10, 11, 12, 13, 14]"
proof -
  have l: "(0::nat) < length [frame_of example_roster]" by simp
  note t = find_consecutive_students_head [OF l, of 5 "[]"]
  have r: "find_runs 5 (sort (map isu (rows ([frame_of example_roster] ! 0))))
     = [[10, 11, 12, 13, 14, 15]]"
    by (simp only: ex_sorted_ids ex_runs6)
  from t have "map (\<lambda>t. snd (snd (snd (snd t)))) (fst (find_consecutive_students 0 [frame_of example_roster]))
     = (case find_runs 5 (sort (map isu (rows ([frame_of example_roster] ! 0)))) of
          [] \<Rightarrow> [] | g # _ \<Rightarrow> take 5 g)"
    by (rule conjunct1)
  then have "map (\<lambda>t. snd (snd (snd (snd t)))) (fst (find_consecutive_students 0 [frame_of example_roster]))
     = [10, 11, 12, 13, 14]"
    unfolding r by simp
  with r show ?thesis by (intro conjI)
qed

section \<open>The queries\<close>

text \<open>
  C6, at the empty roster: \<open>find_homonymous_students\<close> raises \<open>ValueError\<close> (the maximum
  over the empty dictionary of groups) and \<open>faculty_statistics\<close> raises \<open>KeyError\<close> (the
  label 0 is not in the empty table of counts), where the claim has them return an
  empty result.
\<close>

theorem queries_on_empty_roster:
  "find_homonymous_students ([] :: int student list) = Inl ValueError
   \<and> faculty_statistics ([] :: int student list) = Inl KeyError"
  by (simp only: find_homonymous_students_empty faculty_statistics_empty)

text \<open>
  C7: every table object that exists before \<open>highest_avg_grade_faculty\<close> or
  \<open>find_consecutive_students\<close> is called, the roster passed and every slice of it among
  them, is the same after the call, with the same columns and values. The derived
  columns are written to a table object made during the call, at the first address
  after those in use: the column \<open>pol\<close> when the query gets as far as its result, the
  columns \<open>diff\<close> and \<open>area\<close> always. The other queries assign to no table and are
  functions of the rows.
\<close>

theorem queries_leave_roster:
  "take (length st) (snd (highest_avg_grade_faculty mean gt rnd W data st)) = st
   \<and> (\<not> isl (fst (highest_avg_grade_faculty mean gt rnd W data st)) \<longrightarrow>
        length st < length (snd (highest_avg_grade_faculty mean gt rnd W data st))
        \<and> pol (snd (highest_avg_grade_faculty mean gt rnd W data st) ! length st) \<noteq> None)
   \<and> take (length st) (snd (find_consecutive_students data st)) = st
   \<and> diff (snd (find_consecutive_students data st) ! length st) \<noteq> None
   \<and> area (snd (find_consecutive_students data st) ! length st) \<noteq> None"
  using highest_avg_grade_faculty_store [of st mean gt rnd W data]
    highest_avg_grade_faculty_writes [of mean gt rnd W data st]
    find_consecutive_students_store [of st data]
    find_consecutive_students_writes [of data st]
  by blast

theorem queries_leave_roster_witness:
  "\<not> isl (fst (highest_avg_grade_faculty sum_list (\<lambda>a b. b < a) Inr uword 0
       [frame_of (take 2 example_roster)]))
   \<and> take 1 (snd (highest_avg_grade_faculty sum_list (\<lambda>a b. b < a) Inr uword 0
       [frame_of (take 2 example_roster)])) = [frame_of (take 2 example_roster)]
   \<and> pol (snd (highest_avg_grade_faculty sum_list (\<lambda>a b. b < a) Inr uword 0
       [frame_of (take 2 example_roster)]) ! 1) \<noteq> None
   \<and> pol (frame_of (take 2 example_roster)) = None"
proof -
  let ?st = "[frame_of (take 2 example_roster)]"
  let ?R = "highest_avg_grade_faculty sum_list (\<lambda>a b. b < a) Inr uword 0 ?st"
  note t = queries_leave_roster [of ?st sum_list "\<lambda>a b. b < a" Inr uword 0]
  have l: "length ?st = 1" by simp
  have r: "\<not> isl (fst ?R)"
    by (rule highest_avg_grade_faculty_returns) (rule ex_third_year)
  from t have "take (length ?st) (snd ?R) = ?st" by (rule conjunct1)
  then have k: "take 1 (snd ?R) = ?st" by (simp only: l)
  from t r have "pol (snd ?R ! length ?st) \<noteq> None" by blast
  then have w: "pol (snd ?R ! 1) \<noteq> None" by simp
  have n: "pol (frame_of (take 2 example_roster)) = None" by (simp add: frame_of_def)
  from r k w n show ?thesis by (intro conjI)
qed

text \<open>
  C8: for every roster, the counts of the three buckets \<open>female\<close>, \<open>male\<close> and \<open>unknown\<close>
  in the series that \<open>analyze_patronyms\<close> returns add up to the number of rows with a
  non-empty patronymic; together with the number of rows without patronymic, which it
  also returns, they add up to the number of rows.
\<close>

theorem analyze_patronyms_buckets:
  "bucket (snd (analyze_patronyms W df)) ''female''
     + bucket (snd (analyze_patronyms W df)) ''male''
     + bucket (snd (analyze_patronyms W df)) ''unknown''
   = length (filter (\<lambda>r. patronim r \<noteq> []) df)
   \<and> fst (analyze_patronyms W df) + length (filter (\<lambda>r. patronim r \<noteq> []) df) = length df"
proof
  let ?gs = "map (gender_identification W) (map patronim (filter (\<lambda>r. patronim r \<noteq> []) df))"
  have g: "snd (analyze_patronyms W df) = value_counts ?gs"
    by (simp add: analyze_patronyms_def Let_def)
  have "set ?gs \<subseteq> {''female'', ''male'', ''unknown''}"
    using gender_identification_range by auto
  then have "count_list ?gs ''female'' + count_list ?gs ''male'' + count_list ?gs ''unknown''
      = length ?gs"
    by (rule three_counts) simp_all
  then show "bucket (snd (analyze_patronyms W df)) ''female''
     + bucket (snd (analyze_patronyms W df)) ''male''
     + bucket (snd (analyze_patronyms W df)) ''unknown''
   = length (filter (\<lambda>r. patronim r \<noteq> []) df)"
    by (simp only: g bucket_value_counts length_map)
  have "fst (analyze_patronyms W df) = length (filter (\<lambda>r. \<not> patronim r \<noteq> []) df)"
    by (simp add: analyze_patronyms_def Let_def filter_map comp_def)
  then show "fst (analyze_patronyms W df) + length (filter (\<lambda>r. patronim r \<noteq> []) df) = length df"
    using sum_length_filter_compl [of "\<lambda>r. patronim r \<noteq> []" df] by simp
qed

theorem analyze_patronyms_buckets_witness:
  "analyze_patronyms uword example_roster = (1, [(''female'', 3), (''male'', 2)])
   \<and> bucket [(''female'', 3), (''male'', 2)] ''female''
       + bucket [(''female'', 3), (''male'', 2)] ''male''
       + bucket [(''female'', 3), (''male'', 2)] ''unknown''
     = length (filter (\<lambda>r. patronim r \<noteq> []) example_roster)
   \<and> 1 + length (filter (\<lambda>r. patronim r \<noteq> []) example_roster) = length example_roster"
  using analyze_patronyms_buckets [of uword example_roster]
  by (simp only: ex_patronyms fst_conv snd_conv simp_thms)

text \<open>
  C9: on every roster whose faculties are \<open>a\<close> with 10 students, \<open>b\<close> with 20 and \<open>c\<close>
  with 5, in whatever order the rows come, \<open>faculty_statistics\<close> returns the table of
  the counts with \<open>(b, 20)\<close> as the faculty with most students and \<open>(c, 5)\<close> as the one
  with fewest.
\<close>

theorem faculty_statistics_example:
  assumes "set (map fakultet data) = {a, b, c}" and "a \<noteq> b" and "a \<noteq> c" and "b \<noteq> c"
    and "count_list (map fakultet data) a = 10"
    and "count_list (map fakultet data) b = 20"
    and "count_list (map fakultet data) c = 5"
  shows "faculty_statistics data = Inr ([(1, b, 20), (2, a, 10), (3, c, 5)], (b, 20), (c, 5))"
proof -
  have v: "value_counts (map fakultet data) = [(b, 20), (a, 10), (c, 5)]"
    using assms by (rule value_counts_three)
  have ne: "data \<noteq> []" using assms(1) by auto
  show ?thesis
    unfolding faculty_statistics_value [OF ne] v by (simp add: upt_rec)
qed

theorem faculty_statistics_example_witness:
  "faculty_statistics three_faculties
     = Inr ([(1, [0x42], 20), (2, [0x41], 10), (3, [0x43], 5)], ([0x42], 20), ([0x43], 5))"
  by (rule faculty_statistics_example [OF ex_three_faculties(1) _ _ _ ex_three_faculties(2-4)])
    simp_all

text \<open>
  C10: whenever \<open>find_homonymous_students\<close> returns a result, its first component,
  whether homonyms exist, is true if and only if its second component, the number of
  homonyms, is greater than zero.
\<close>

theorem find_homonymous_students_exist:
  assumes "find_homonymous_students df = Inr (exist, homonyms_numb, hom_on_course, max_hom_group)"
  shows "exist \<longleftrightarrow> 0 < homonyms_numb"
proof -
  let ?ns = "map snd (value_counts (map surname df))"
  from assms have "exist = list_ex (\<lambda>n. 1 < n) ?ns"
    and "homonyms_numb = sum_list (filter (\<lambda>n. 1 < n) ?ns)"
    by (auto simp: find_homonymous_students_def Let_def split: sum.splits)
  then show ?thesis by (simp only: list_ex_sum_filter)
qed

theorem find_homonymous_students_exist_witness:
  "find_homonymous_students (take 3 example_roster)
     = Inr (True, 2, [([0x33, 0x2D, 0x439], 2)], [0x41A, 0x31])
   \<and> (True \<longleftrightarrow> (0::nat) < 2)"
  by (rule conjI [OF ex_homonymous find_homonymous_students_exist [OF ex_homonymous]])

end
